theory Spec2Isabelle
  imports Main "HOL-Library.Word"
begin

unbundle bit_operations_syntax

section \<open>The frame decoder of lib/jxl/dec\_frame.cc\<close>

text \<open>
  A shallow embedding of \<^verbatim>\<open>FrameDecoder\<close> (lib/jxl/dec\_frame.cc): the members of the
  class are the fields of a record, each method takes the record and returns its status
  together with the record as the method leaves it (the C++ methods mutate the object
  also on the paths that return an error). The sub-decoders (entropy coder, modular
  decoder, render pipeline, thread pool) are not part of the file; what they return is
  taken from an environment record, so every theorem holds for whatever they return.
\<close>

subsection \<open>Status values\<close>

text \<open>
  \<^verbatim>\<open>Status\<close>: success, the non-fatal "not enough bytes", or a fatal error with its message
  (\<^verbatim>\<open>JXL_FAILURE(msg)\<close>; a \<^verbatim>\<open>Status(false)\<close> built from a bool is a fatal error with
  no message). \<^verbatim>\<open>JXL_ABORT\<close> is not a status the C++ returns: it stands for the process
  being terminated by a failed \<^verbatim>\<open>JXL_ASSERT\<close> or \<^verbatim>\<open>JXL_CHECK\<close>.
\<close>

datatype Status = StatusOk | StatusNotEnoughBytes | JXL_FAILURE string | JXL_ABORT

fun IsFatalError :: "Status \<Rightarrow> bool" where
  "IsFatalError StatusOk = False"
| "IsFatalError StatusNotEnoughBytes = False"
| "IsFatalError (JXL_FAILURE msg) = True"
| "IsFatalError JXL_ABORT = True"

subsection \<open>Frame header and frame dimensions\<close>

datatype FrameEncoding = kVarDCT | kModular

datatype FrameType = kRegularFrame | kDCFrame | kReferenceOnly | kSkipProgressive

datatype BlendMode = kReplace | kAdd | kBlend | kAlphaWeightedAdd | kMul

text \<open>The flags of the header are a bit set; the model keeps the set of the flags that are on.\<close>

datatype Flag = kNoise | kPatches | kSplines | kUseDcFrame | kSkipAdaptiveDCSmoothing

record BlendingInfo =
  mode :: BlendMode
  source :: nat

record Passes =
  num_passes :: nat
  num_downsample :: nat
  downsample :: "nat list"
  last_pass :: "nat list"

record FrameHeader =
  encoding :: FrameEncoding
  frame_type :: FrameType
  flags :: "Flag set"
  dc_level :: nat
  passes :: Passes
  custom_size_or_origin :: bool
  blending_info :: BlendingInfo
  extra_channel_blending_info :: "BlendingInfo list"
  chroma_subsampling_Is444 :: bool
  CanBeReferenced :: bool
  save_as_reference :: nat
  nonserialized_is_preview :: bool

record FrameDimensions =
  num_groups :: nat
  num_dc_groups :: nat

subsection \<open>The state of the decoder\<close>

text \<open>
  The members of \<^verbatim>\<open>FrameDecoder\<close>. \<^verbatim>\<open>decoded_passes_per_ac_group_\<close> is a vector of
  \<^verbatim>\<open>uint32_t\<close>; \<^verbatim>\<open>max_passes_\<close> and the counters are \<^verbatim>\<open>size_t\<close>, on which the code
  only compares and counts up to the number of sections. \<^verbatim>\<open>epf_iters\<close> is the loop
  filter's field of the shared decoder state that \<^verbatim>\<open>FinalizeFrame\<close> writes, and
  \<^verbatim>\<open>reference_saved\<close> records the reference slot that \<^verbatim>\<open>FinalizeFrame\<close> fills.
\<close>

record FrameDecoder =
  frame_header :: FrameHeader
  frame_dim :: FrameDimensions
  allow_partial_frames :: bool
  allow_partial_dc_global :: bool
  pause_at_progressive :: bool
  decoded_dc_global :: bool
  decoded_ac_global :: bool
  is_finalized :: bool
  finalized_dc :: bool
  num_sections_done :: nat
  decoded_dc_groups :: "bool list"
  decoded_passes_per_ac_group :: "32 word list"
  processed_section :: "bool list"
  max_passes :: nat
  num_renders :: nat
  allocated :: bool
  epf_iters :: nat
  reference_saved :: "nat option"
  section_offsets_size :: nat

text \<open>A bit reader is identified by a handle; what decoding from it gives is the environment's.\<close>

type_synonym BitReader = nat

record Env =
  IsJPEG :: bool
  has_extra_channels :: bool
  DecodeDCGlobal :: "BitReader \<Rightarrow> Status"
  DecodeDCGroup :: "nat \<Rightarrow> BitReader \<Rightarrow> Status"
  PreparePipeline :: Status
  InitForAC :: Status
  DecodeACGlobal :: "BitReader \<Rightarrow> Status"
  DecodeACGroup :: "nat \<Rightarrow> BitReader list \<Rightarrow> nat \<Rightarrow> bool \<Rightarrow> bool \<Rightarrow> Status"
  FinalizeDecoding :: Status
  patches_GetReferences :: "32 word"

subsection \<open>HasEverything\<close>

text \<open>The two loops of \<^verbatim>\<open>HasEverything\<close>, each returning false at the first entry that fails.\<close>

fun have_dc_groups :: "bool list \<Rightarrow> bool" where
  "have_dc_groups [] = True"
| "have_dc_groups (have_dc_group # rest) =
     (if \<not> have_dc_group then False else have_dc_groups rest)"

fun have_passes :: "nat \<Rightarrow> 32 word list \<Rightarrow> bool" where
  "have_passes mp [] = True"
| "have_passes mp (nb_passes # rest) =
     (if unat nb_passes < mp then False else have_passes mp rest)"

definition HasEverything :: "FrameDecoder \<Rightarrow> bool" where
  "HasEverything s =
     (if \<not> decoded_dc_global s then False
      else if \<not> decoded_ac_global s then False
      else if \<not> have_dc_groups (decoded_dc_groups s) then False
      else if \<not> have_passes (max_passes s) (decoded_passes_per_ac_group s) then False
      else True)"

subsection \<open>References\<close>

text \<open>
  The result is a C \<^verbatim>\<open>int\<close>, modelled by its 32 bits; \<^verbatim>\<open>1 << n\<close> is \<open>push_bit n 1\<close>.
  The sources are two-bit fields of the header and the DC level is at most 4, so no
  shift reaches the sign bit.
\<close>

definition blend_step :: "bool \<Rightarrow> BlendingInfo \<Rightarrow> 32 word \<Rightarrow> 32 word" where
  "blend_step cropped info result =
     (if cropped \<or> mode info \<noteq> kReplace then result OR push_bit (source info) 1 else result)"

definition References :: "Env \<Rightarrow> FrameDecoder \<Rightarrow> 32 word" where
  "References env s =
     (if is_finalized s then 0
      else if \<not> HasEverything s then 0
      else
        let h = frame_header s;
            result = 0;
            result =
              (if frame_type h = kRegularFrame \<or> frame_type h = kSkipProgressive then
                 let cropped = custom_size_or_origin h;
                     result = blend_step cropped (blending_info h) result
                 in fold (blend_step cropped) (extra_channel_blending_info h) result
               else result);
            result =
              (if kPatches \<in> flags h then result OR patches_GetReferences env else result);
            result =
              (if kUseDcFrame \<in> flags h
               then (let dc_level' = dc_level h + 1 in result OR push_bit (dc_level' - 1) 16)
               else result)
        in result)"

text \<open>
  The three parts of the mask as the specification words them: the source bit of every
  blending descriptor (colour first, then the extra channels) that blends, the patch
  dictionary's references, and the bit of the next DC level.
\<close>

definition blending_source_bits :: "FrameHeader \<Rightarrow> 32 word" where
  "blending_source_bits h =
     (if frame_type h = kRegularFrame \<or> frame_type h = kSkipProgressive then
        foldr (OR)
          (map (\<lambda>info. push_bit (source info) 1)
             (filter (\<lambda>info. custom_size_or_origin h \<or> mode info \<noteq> kReplace)
                (blending_info h # extra_channel_blending_info h))) 0
      else 0)"

definition patches_reference_bits :: "Env \<Rightarrow> FrameHeader \<Rightarrow> 32 word" where
  "patches_reference_bits env h = (if kPatches \<in> flags h then patches_GetReferences env else 0)"

definition dc_frame_bit :: "FrameHeader \<Rightarrow> 32 word" where
  "dc_frame_bit h = (if kUseDcFrame \<in> flags h then push_bit (dc_level h) 16 else 0)"

subsection \<open>Stage executors\<close>

text \<open>
  Each executor calls sub-decoders and then records what it decoded. The environment
  gives the status of the sequence of sub-decoder calls (the first error among them, or
  the status of the last); the flag or counter is written only after all of them.
\<close>

definition ProcessDCGlobal :: "Env \<Rightarrow> BitReader \<Rightarrow> FrameDecoder \<Rightarrow> Status \<times> FrameDecoder" where
  "ProcessDCGlobal env reader s =
     (let dec_status = DecodeDCGlobal env reader in
      if IsFatalError dec_status then (dec_status, s)
      else if dec_status = StatusOk then (dec_status, s\<lparr>decoded_dc_global := True\<rparr>)
      else (dec_status, s))"

definition ProcessDCGroup :: "Env \<Rightarrow> nat \<Rightarrow> BitReader \<Rightarrow> FrameDecoder \<Rightarrow> Status \<times> FrameDecoder" where
  "ProcessDCGroup env dc_group_id reader s =
     (let st = DecodeDCGroup env dc_group_id reader in
      if st \<noteq> StatusOk then (st, s)
      else (StatusOk, s\<lparr>decoded_dc_groups := (decoded_dc_groups s)[dc_group_id := True]\<rparr>))"

definition FinalizeDC :: "FrameDecoder \<Rightarrow> FrameDecoder" where
  "FinalizeDC s = s\<lparr>finalized_dc := True\<rparr>"

definition AllocateOutput :: "Env \<Rightarrow> FrameDecoder \<Rightarrow> Status \<times> FrameDecoder" where
  "AllocateOutput env s =
     (if allocated s then (StatusOk, s)
      else let st = InitForAC env in
        if st \<noteq> StatusOk then (st, s) else (StatusOk, s\<lparr>allocated := True\<rparr>))"

definition ProcessACGlobal :: "Env \<Rightarrow> BitReader \<Rightarrow> FrameDecoder \<Rightarrow> Status \<times> FrameDecoder" where
  "ProcessACGlobal env reader s =
     (if \<not> finalized_dc s then (JXL_ABORT, s)
      else let st = DecodeACGlobal env reader in
        if st \<noteq> StatusOk then (st, s) else (StatusOk, s\<lparr>decoded_ac_global := True\<rparr>))"

definition ProcessACGroup ::
  "Env \<Rightarrow> nat \<Rightarrow> BitReader list \<Rightarrow> nat \<Rightarrow> bool \<Rightarrow> bool \<Rightarrow> FrameDecoder \<Rightarrow> Status \<times> FrameDecoder" where
  "ProcessACGroup env ac_group_id readers n_passes force_draw dc_only s =
     (let st = DecodeACGroup env ac_group_id readers n_passes force_draw dc_only in
      if st \<noteq> StatusOk then (st, s)
      else (StatusOk, s\<lparr>decoded_passes_per_ac_group :=
              (decoded_passes_per_ac_group s)
                [ac_group_id := decoded_passes_per_ac_group s ! ac_group_id + of_nat n_passes]\<rparr>))"

subsection \<open>ProcessSections\<close>

record SectionInfo =
  br :: BitReader
  id_sec :: nat

datatype SectionStatus = kDone | kPartial | kSkipped | kDuplicate

text \<open>The local variables of \<^verbatim>\<open>ProcessSections\<close>: positions in the batch, \<^verbatim>\<open>num\<close> for none.\<close>

record Locals =
  dc_global_sec :: nat
  ac_global_sec :: nat
  dc_group_sec :: "nat list"
  ac_group_sec :: "nat list list"
  num_ac_passes :: "nat list"

type_synonym Work = "FrameDecoder \<times> Locals \<times> SectionStatus list"

definition single_section :: "FrameDecoder \<Rightarrow> bool" where
  "single_section s =
     (num_groups (frame_dim s) = 1 \<and> num_passes (passes (frame_header s)) = 1)"

definition init_locals :: "FrameDecoder \<Rightarrow> nat \<Rightarrow> Locals" where
  "init_locals s num =
     \<lparr>dc_global_sec = num, ac_global_sec = num,
      dc_group_sec = replicate (num_dc_groups (frame_dim s)) num,
      ac_group_sec =
        replicate (num_groups (frame_dim s)) (replicate (num_passes (passes (frame_header s))) num),
      num_ac_passes = replicate (num_groups (frame_dim s)) 0\<rparr>"

definition mark_processed :: "nat \<Rightarrow> FrameDecoder \<Rightarrow> FrameDecoder" where
  "mark_processed sid s = s\<lparr>processed_section := (processed_section s)[sid := True]\<rparr>"

text \<open>
  A loop whose body can return from the function: the body gives \<open>Some status\<close> to
  return, \<open>None\<close> to go on with the next index.
\<close>

fun run_loop :: "(nat \<Rightarrow> 'w \<Rightarrow> Status option \<times> 'w) \<Rightarrow> nat list \<Rightarrow> 'w \<Rightarrow> Status option \<times> 'w" where
  "run_loop body [] w = (None, w)"
| "run_loop body (i # rest) w =
     (case body i w of
        (Some st, w') \<Rightarrow> (Some st, w')
      | (None, w') \<Rightarrow> run_loop body rest w')"

definition and_then ::
  "Status option \<times> 'w \<Rightarrow> ('w \<Rightarrow> Status option \<times> 'w) \<Rightarrow> Status option \<times> 'w" where
  "and_then r f = (case r of (Some st, w) \<Rightarrow> (Some st, w) | (None, w) \<Rightarrow> f w)"

text \<open>The body of the loop over the batch (the frame has more than one section).\<close>

definition classify_section :: "SectionInfo list \<Rightarrow> nat \<Rightarrow> Work \<Rightarrow> Status option \<times> Work" where
  "classify_section sections i w =
     (case w of (s, l, section_status) \<Rightarrow>
        let sid = id_sec (sections ! i);
            ac_global_index = num_dc_groups (frame_dim s) + 1
        in
        if \<not> sid < length (processed_section s) then (Some JXL_ABORT, w)
        else if processed_section s ! sid then (None, (s, l, section_status[i := kDuplicate]))
        else if sid = 0 then
          (None, (mark_processed sid s, l\<lparr>dc_global_sec := i\<rparr>, section_status))
        else if sid < ac_global_index then
          (None, (mark_processed sid s,
                  l\<lparr>dc_group_sec := (dc_group_sec l)[sid - 1 := i]\<rparr>, section_status))
        else if sid = ac_global_index then
          (None, (mark_processed sid s, l\<lparr>ac_global_sec := i\<rparr>, section_status))
        else
          let ac_idx = sid - ac_global_index - 1;
              acg = ac_idx mod num_groups (frame_dim s);
              acp = ac_idx div num_groups (frame_dim s)
          in
          if acp \<ge> num_passes (passes (frame_header s))
          then (Some (JXL_FAILURE ''Invalid section ID''), w)
          else if acp \<ge> max_passes s then (None, w)
          else (None, (mark_processed sid s,
                       l\<lparr>ac_group_sec :=
                           (ac_group_sec l)[acg := (ac_group_sec l ! acg)[acp := i]]\<rparr>,
                       section_status)))"

text \<open>Counting the new passes of one group: the inner loop over \<open>j\<close>.\<close>

function count_new_passes :: "nat list \<Rightarrow> nat \<Rightarrow> nat \<Rightarrow> nat \<Rightarrow> nat \<Rightarrow> nat" where
  "count_new_passes secs decoded mp num j =
     (if j + decoded < mp then
        (if secs ! (j + decoded) = num then j
         else count_new_passes secs decoded mp num (j + 1))
      else j)"
  by pat_completeness auto
termination
  by (relation "measure (\<lambda>(secs, decoded, mp, num, j). mp - (j + decoded))") auto

declare count_new_passes.simps [simp del]

definition resize1 :: "nat list \<Rightarrow> nat list" where
  "resize1 xs = take 1 xs @ replicate (1 - length xs) 0"

definition classify_stage :: "SectionInfo list \<Rightarrow> Work \<Rightarrow> Status option \<times> Work" where
  "classify_stage sections w =
     (case w of (s, l, section_status) \<Rightarrow>
        if single_section s then
          (if length sections \<noteq> 1 then (Some JXL_ABORT, w)
           else if id_sec (sections ! 0) \<noteq> 0 then (Some JXL_ABORT, w)
           else if processed_section s ! 0 = False then
             (let l = l\<lparr>ac_group_sec := (ac_group_sec l)[0 := resize1 (ac_group_sec l ! 0)]\<rparr>;
                  l = l\<lparr>ac_group_sec := (ac_group_sec l)[0 := (ac_group_sec l ! 0)[0 := 0]]\<rparr>;
                  l = l\<lparr>dc_group_sec := (dc_group_sec l)[0 := 0]\<rparr>;
                  l = l\<lparr>ac_global_sec := 0\<rparr>;
                  l = l\<lparr>dc_global_sec := 0\<rparr>;
                  l = l\<lparr>num_ac_passes := (num_ac_passes l)[0 := 1]\<rparr>
              in (None, (mark_processed 0 s, l, section_status)))
           else (None, (s, l, section_status[0 := kDuplicate])))
        else
          and_then (run_loop (classify_section sections) [0..<length sections] w)
            (\<lambda>(s, l, section_status).
               (None, (s,
                  l\<lparr>num_ac_passes :=
                      map (\<lambda>g. count_new_passes (ac_group_sec l ! g)
                                 (unat (decoded_passes_per_ac_group s ! g))
                                 (max_passes s) (length sections) 0)
                        [0..<length (ac_group_sec l)]\<rparr>,
                  section_status))))"

definition dc_global_stage :: "Env \<Rightarrow> SectionInfo list \<Rightarrow> Work \<Rightarrow> Status option \<times> Work" where
  "dc_global_stage env sections w =
     (case w of (s, l, section_status) \<Rightarrow>
        if dc_global_sec l \<noteq> length sections then
          (case ProcessDCGlobal env (br (sections ! dc_global_sec l)) s of
             (dc_global_status, s') \<Rightarrow>
               if IsFatalError dc_global_status then (Some dc_global_status, (s', l, section_status))
               else if dc_global_status = StatusOk
               then (None, (s', l, section_status[dc_global_sec l := kDone]))
               else (None, (s', l, section_status[dc_global_sec l := kPartial])))
        else (None, w))"

text \<open>
  The two parallel regions run their tasks over the groups; a task touches only its own
  group's slots, so the model runs them in the order of the indices. A task that fails
  sets \<open>has_error\<close> and the others still run.
\<close>

definition dc_group_task ::
  "Env \<Rightarrow> SectionInfo list \<Rightarrow> Locals \<Rightarrow> nat \<Rightarrow> bool \<times> FrameDecoder \<times> SectionStatus list
     \<Rightarrow> bool \<times> FrameDecoder \<times> SectionStatus list" where
  "dc_group_task env sections l i acc =
     (case acc of (has_error, s, section_status) \<Rightarrow>
        if dc_group_sec l ! i \<noteq> length sections then
          (case ProcessDCGroup env i (br (sections ! (dc_group_sec l ! i))) s of
             (st, s') \<Rightarrow>
               if st \<noteq> StatusOk then (True, s', section_status)
               else (has_error, s', section_status[dc_group_sec l ! i := kDone]))
        else acc)"

definition dc_groups_stage :: "Env \<Rightarrow> SectionInfo list \<Rightarrow> Work \<Rightarrow> Status option \<times> Work" where
  "dc_groups_stage env sections w =
     (case w of (s, l, section_status) \<Rightarrow>
        (case (if decoded_dc_global s
               then fold (dc_group_task env sections l) [0..<length (dc_group_sec l)]
                      (False, s, section_status)
               else (False, s, section_status)) of
           (has_error, s', section_status') \<Rightarrow>
             if has_error then (Some (JXL_FAILURE ''Error in DC group''), (s', l, section_status'))
             else (None, (s', l, section_status'))))"

definition MarkSections_step ::
  "SectionInfo list \<Rightarrow> SectionStatus list \<Rightarrow> nat \<Rightarrow> FrameDecoder \<Rightarrow> FrameDecoder" where
  "MarkSections_step sections section_status i s =
     (if section_status ! i = kSkipped \<or> section_status ! i = kPartial
      then s\<lparr>processed_section := (processed_section s)[id_sec (sections ! i) := False],
             num_sections_done := num_sections_done s - 1\<rparr>
      else s)"

definition MarkSections ::
  "SectionInfo list \<Rightarrow> SectionStatus list \<Rightarrow> FrameDecoder \<Rightarrow> FrameDecoder" where
  "MarkSections sections section_status s =
     fold (MarkSections_step sections section_status) [0..<length sections]
       (s\<lparr>num_sections_done := length sections\<rparr>)"

text \<open>\<^verbatim>\<open>*std::min_element(begin, end)\<close> of a vector that is not empty.\<close>

definition min_element :: "'a::linorder list \<Rightarrow> 'a" where
  "min_element xs = fold min (tl xs) (hd xs)"

definition finalize_dc_stage :: "Env \<Rightarrow> SectionInfo list \<Rightarrow> Work \<Rightarrow> Status option \<times> Work" where
  "finalize_dc_stage env sections w =
     (case w of (s, l, section_status) \<Rightarrow>
        if min_element (decoded_dc_groups s) \<and> \<not> finalized_dc s then
          (let pst = PreparePipeline env in
           if pst \<noteq> StatusOk then (Some pst, w)
           else
             (case AllocateOutput env (FinalizeDC s) of
                (ast, s') \<Rightarrow>
                  if ast \<noteq> StatusOk then (Some ast, (s', l, section_status))
                  else if pause_at_progressive s' \<and> \<not> single_section s' then
                    (let can_return_dc = True;
                         can_return_dc = (if single_section s' then False else can_return_dc);
                         can_return_dc = (if has_extra_channels env then False else can_return_dc);
                         can_return_dc =
                           (if encoding (frame_header s') \<noteq> kVarDCT then False else can_return_dc)
                     in if can_return_dc
                        then (Some StatusOk, (MarkSections sections section_status s', l, section_status))
                        else (None, (s', l, section_status)))
                  else (None, (s', l, section_status))))
        else (None, w))"

definition ac_global_stage :: "Env \<Rightarrow> SectionInfo list \<Rightarrow> Work \<Rightarrow> Status option \<times> Work" where
  "ac_global_stage env sections w =
     (case w of (s, l, section_status) \<Rightarrow>
        if finalized_dc s \<and> ac_global_sec l \<noteq> length sections \<and> \<not> decoded_ac_global s then
          (case ProcessACGlobal env (br (sections ! ac_global_sec l)) s of
             (st, s') \<Rightarrow>
               if st \<noteq> StatusOk then (Some st, (s', l, section_status))
               else (None, (s', l, section_status[ac_global_sec l := kDone])))
        else (None, w))"

text \<open>
  The task of one AC group. The first component of the accumulator records that the
  \<^verbatim>\<open>JXL_ASSERT\<close> of the task failed.
\<close>

definition ac_group_task ::
  "Env \<Rightarrow> SectionInfo list \<Rightarrow> Locals \<Rightarrow> nat
     \<Rightarrow> bool \<times> bool \<times> FrameDecoder \<times> SectionStatus list
     \<Rightarrow> bool \<times> bool \<times> FrameDecoder \<times> SectionStatus list" where
  "ac_group_task env sections l g acc =
     (case acc of (aborted, has_error, s, section_status) \<Rightarrow>
        if aborted then acc
        else if num_ac_passes l ! g = 0 then acc
        else
          let first_pass = unat (decoded_passes_per_ac_group s ! g);
              secs = map (\<lambda>i. ac_group_sec l ! g ! (first_pass + i)) [0..<num_ac_passes l ! g]
          in
          if length sections \<in> set secs then (True, has_error, s, section_status)
          else
            (case ProcessACGroup env g (map (\<lambda>k. br (sections ! k)) secs)
                    (num_ac_passes l ! g) False False s of
               (st, s') \<Rightarrow>
                 if st \<noteq> StatusOk then (aborted, True, s', section_status)
                 else (aborted, has_error, s',
                       fold (\<lambda>k section_status. section_status[k := kDone]) secs section_status)))"

definition ac_groups_stage :: "Env \<Rightarrow> SectionInfo list \<Rightarrow> Work \<Rightarrow> Status option \<times> Work" where
  "ac_groups_stage env sections w =
     (case w of (s, l, section_status) \<Rightarrow>
        (case (if decoded_ac_global s
               then fold (ac_group_task env sections l) [0..<length (ac_group_sec l)]
                      (False, False, s, section_status)
               else (False, False, s, section_status)) of
           (aborted, has_error, s', section_status') \<Rightarrow>
             if aborted then (Some JXL_ABORT, (s', l, section_status'))
             else if has_error
             then (Some (JXL_FAILURE ''Error in AC group''), (s', l, section_status'))
             else (None, (s', l, section_status'))))"

definition mark_stage :: "SectionInfo list \<Rightarrow> Work \<Rightarrow> Status option \<times> Work" where
  "mark_stage sections w =
     (case w of (s, l, section_status) \<Rightarrow>
        (Some StatusOk, (MarkSections sections section_status s, l, section_status)))"

text \<open>
  \<^verbatim>\<open>ProcessSections(sections, num, section_status)\<close>: the result is the status, the
  array \<^verbatim>\<open>section_status\<close> as the call leaves it, and the decoder.
\<close>

definition ProcessSections ::
  "Env \<Rightarrow> SectionInfo list \<Rightarrow> FrameDecoder \<Rightarrow> Status \<times> SectionStatus list \<times> FrameDecoder" where
  "ProcessSections env sections s =
     (if length sections = 0 then (StatusOk, [], s)
      else
        let w = (s, init_locals s (length sections), replicate (length sections) kSkipped);
            r = classify_stage sections w;
            r = and_then r (dc_global_stage env sections);
            r = and_then r (dc_groups_stage env sections);
            r = and_then r (finalize_dc_stage env sections);
            r = and_then r (ac_global_stage env sections);
            r = and_then r (ac_groups_stage env sections);
            r = and_then r (mark_stage sections)
        in (case r of
              (Some status, (s', l, section_status)) \<Rightarrow> (status, section_status, s')
            | (None, (s', l, section_status)) \<Rightarrow> (StatusOk, section_status, s')))"

subsection \<open>Flush and FinalizeFrame\<close>

definition force_draw_task :: "Env \<Rightarrow> nat \<Rightarrow> bool \<times> FrameDecoder \<Rightarrow> bool \<times> FrameDecoder" where
  "force_draw_task env g acc =
     (case acc of (has_error, s) \<Rightarrow>
        if unat (decoded_passes_per_ac_group s ! g) = num_passes (passes (frame_header s)) then acc
        else
          (case ProcessACGroup env g [] 0 True (\<not> decoded_ac_global s) s of
             (ok, s') \<Rightarrow> (if ok \<noteq> StatusOk then True else has_error, s')))"

definition Flush :: "Env \<Rightarrow> FrameDecoder \<Rightarrow> Status \<times> FrameDecoder" where
  "Flush env s =
     (let h = frame_header s;
          has_blending = (mode (blending_info h) \<noteq> kReplace \<or> custom_size_or_origin h);
          has_blending =
            fold (\<lambda>blending_info_ec hb. if mode blending_info_ec \<noteq> kReplace then True else hb)
              (extra_channel_blending_info h) has_blending
      in
      if has_blending \<and> \<not> is_finalized s then (JXL_FAILURE [], s)
      else if frame_type h = kSkipProgressive \<and> \<not> is_finalized s then (StatusOk, s)
      else if IsJPEG env then (StatusOk, s)
      else
        (case AllocateOutput env s of
           (ast, s1) \<Rightarrow>
             if ast \<noteq> StatusOk then (ast, s1)
             else
               (let completely_decoded_ac_pass = min_element (decoded_passes_per_ac_group s1) in
                case (if unat completely_decoded_ac_pass < num_passes (passes h)
                      then fold (force_draw_task env)
                             [0..<length (decoded_passes_per_ac_group s1)] (False, s1)
                      else (False, s1)) of
                  (has_error, s2) \<Rightarrow>
                    if has_error then (JXL_FAILURE ''Drawing groups failed'', s2)
                    else
                      (let dst = FinalizeDecoding env in
                       if dst \<noteq> StatusOk then (dst, s2)
                       else (StatusOk, s2\<lparr>num_renders := num_renders s2 + 1\<rparr>)))))"

definition FinalizeFrame :: "Env \<Rightarrow> FrameDecoder \<Rightarrow> Status \<times> FrameDecoder" where
  "FinalizeFrame env s =
     (if is_finalized s then (JXL_FAILURE ''FinalizeFrame called multiple times'', s)
      else
        let s = s\<lparr>is_finalized := True\<rparr> in
        if IsJPEG env then (StatusOk, s)
        else
          let s = (if \<not> finalized_dc s then s\<lparr>epf_iters := 0\<rparr> else s) in
          if \<not> HasEverything s \<and> \<not> allow_partial_frames s
          then (JXL_FAILURE ''FinalizeFrame called before the frame was fully decoded'', s)
          else if \<not> finalized_dc s \<and> \<not> allow_partial_frames s then (JXL_ABORT, s)
          else
            (case (if \<not> finalized_dc s then AllocateOutput env s else (StatusOk, s)) of
               (ast, s1) \<Rightarrow>
                 if ast \<noteq> StatusOk then (ast, s1)
                 else
                   (case Flush env s1 of
                      (flush_st, s2) \<Rightarrow>
                        if flush_st \<noteq> StatusOk then (flush_st, s2)
                        else if CanBeReferenced (frame_header s2)
                        then (StatusOk,
                              s2\<lparr>reference_saved := Some (save_as_reference (frame_header s2))\<rparr>)
                        else (StatusOk, s2))))"

subsection \<open>InitFrame\<close>

text \<open>
  What \<^verbatim>\<open>InitFrame\<close> reads from the bit reader, the output bundle and the shared decoder
  state. \<^verbatim>\<open>DecodeFrameHeader\<close> gets the header as it stands and gives its status and the
  header as it leaves it; \<^verbatim>\<open>ReadGroupOffsets\<close> gets the number of entries and gives its
  status, the size of \<^verbatim>\<open>section_offsets_\<close> afterwards and \<^verbatim>\<open>groups_total_size\<close>
  (a \<^verbatim>\<open>uint64_t\<close>); \<^verbatim>\<open>group_codes_begin\<close> is the reader's byte position after the TOC.
\<close>

record InitEnv =
  TotalBytes_gt_pos :: bool
  DecodeFrameHeader :: "FrameHeader \<Rightarrow> Status \<times> FrameHeader"
  dc_frames0_xsize :: nat
  ToFrameDimensions :: "FrameHeader \<Rightarrow> FrameDimensions"
  VerifyDimensions :: "FrameDimensions \<Rightarrow> Status"
  ReadGroupOffsets :: "nat \<Rightarrow> Status \<times> nat \<times> 64 word"
  group_codes_begin :: "64 word"
  InitializePassesSharedState :: Status
  dec_state_Init :: Status
  decoded_IsJPEG :: bool
  jpeg_num_components :: nat
  xyb_encoded :: bool

text \<open>
  Modelled from the spec: \<^verbatim>\<open>NumTocEntries\<close> is defined in lib/jxl/toc.h, which is not among
  the sources. Section 3 of the specification gives the layout of the section ids: 0 is
  DC-global, 1 to \<open>num_dc_groups\<close> are the DC groups, \<open>num_dc_groups + 1\<close> is AC-global,
  then one id for every pass and group; a frame with one group and one pass is a single
  section.
\<close>

definition NumTocEntries :: "nat \<Rightarrow> nat \<Rightarrow> nat \<Rightarrow> bool \<Rightarrow> nat" where
  "NumTocEntries n_groups n_dc_groups n_passes has_ac_global =
     (if n_groups = 1 \<and> n_passes = 1 then 1
      else 1 + n_dc_groups + (if has_ac_global then 1 else 0) + n_groups * n_passes)"

definition clear_state :: "FrameDecoder \<Rightarrow> FrameDecoder" where
  "clear_state s =
     s\<lparr>decoded_dc_global := False,
       decoded_ac_global := False,
       is_finalized := False,
       finalized_dc := False,
       num_sections_done := 0,
       decoded_dc_groups := replicate (num_dc_groups (frame_dim s)) False,
       decoded_passes_per_ac_group := replicate (num_groups (frame_dim s)) 0,
       processed_section := replicate (section_offsets_size s) False,
       max_passes := num_passes (passes (frame_header s)),
       num_renders := 0,
       allocated := False\<rparr>"

text \<open>The part of \<^verbatim>\<open>InitFrame\<close> after the frame header: dimensions, TOC, checks, reset.\<close>

definition InitFrame_toc :: "InitEnv \<Rightarrow> bool \<Rightarrow> FrameDecoder \<Rightarrow> Status \<times> FrameDecoder" where
  "InitFrame_toc ienv output_needed s0 =
     (let s = s0\<lparr>frame_dim := ToFrameDimensions ienv (frame_header s0)\<rparr>;
          n_passes = num_passes (passes (frame_header s));
          n_groups = num_groups (frame_dim s);
          vst = VerifyDimensions ienv (frame_dim s)
      in
      if vst \<noteq> StatusOk then (vst, s)
      else
        let has_ac_global = True;
            toc_entries = NumTocEntries n_groups (num_dc_groups (frame_dim s)) n_passes has_ac_global
        in
        (case ReadGroupOffsets ienv toc_entries of
           (rst, n_offsets, groups_total_size) \<Rightarrow>
             let s = s\<lparr>section_offsets_size := n_offsets\<rparr> in
             if \<not> (rst = StatusOk \<or> allow_partial_frames s) then (JXL_FAILURE [], s)
             else if group_codes_begin ienv + groups_total_size < group_codes_begin ienv
             then (JXL_FAILURE ''Invalid group codes'', s)
             else if \<not> chroma_subsampling_Is444 (frame_header s)
                     \<and> kSkipAdaptiveDCSmoothing \<notin> flags (frame_header s)
                     \<and> encoding (frame_header s) = kVarDCT
             then (JXL_FAILURE
                     ''Non-444 chroma subsampling is not allowed when adaptive DC smoothing is enabled'',
                   s)
             else if \<not> output_needed then (StatusOk, s)
             else if InitializePassesSharedState ienv \<noteq> StatusOk
             then (InitializePassesSharedState ienv, s)
             else if dec_state_Init ienv \<noteq> StatusOk then (dec_state_Init ienv, s)
             else if decoded_IsJPEG ienv \<and> encoding (frame_header s) = kModular
             then (JXL_FAILURE ''Cannot output JPEG from Modular'', s)
             else if decoded_IsJPEG ienv \<and> jpeg_num_components ienv \<noteq> 1
                     \<and> jpeg_num_components ienv \<noteq> 3
             then (JXL_FAILURE ''Invalid number of components'', s)
             else if decoded_IsJPEG ienv \<and> xyb_encoded ienv
             then (JXL_FAILURE ''Cannot decode to JPEG an XYB image'', s)
             else (StatusOk, clear_state s)))"

text \<open>The part of \<^verbatim>\<open>InitFrame\<close> up to the frame header.\<close>

definition InitFrame_header ::
  "InitEnv \<Rightarrow> bool \<Rightarrow> bool \<Rightarrow> bool \<Rightarrow> FrameDecoder \<Rightarrow> Status \<times> FrameDecoder" where
  "InitFrame_header ienv is_preview allow_partial allow_partial_dc s0 =
     (if \<not> is_finalized s0 then (JXL_ABORT, s0)
      else
        let s = s0\<lparr>allow_partial_frames := allow_partial,
                   allow_partial_dc_global := allow_partial_dc\<rparr>;
            s = s\<lparr>frame_header := (frame_header s)\<lparr>nonserialized_is_preview := is_preview\<rparr>\<rparr>
        in
        (case (if TotalBytes_gt_pos ienv
               then (case DecodeFrameHeader ienv (frame_header s) of
                       (hst, h) \<Rightarrow> (hst = StatusOk, s\<lparr>frame_header := h\<rparr>))
               else (False, s)) of
           (have_frameheader, s) \<Rightarrow>
             if \<not> (have_frameheader \<or> allow_partial) then (JXL_FAILURE [], s)
             else if \<not> have_frameheader then
               (if dc_frames0_xsize ienv > 0 then
                  (StatusOk,
                   s\<lparr>frame_header :=
                       (frame_header s)\<lparr>flags := insert kUseDcFrame (flags (frame_header s)),
                                        encoding := kVarDCT,
                                        dc_level := 0\<rparr>\<rparr>)
                else (JXL_FAILURE ''Couldn't read frame header'', s))
             else (StatusOk, s)))"

definition InitFrame ::
  "InitEnv \<Rightarrow> bool \<Rightarrow> bool \<Rightarrow> bool \<Rightarrow> bool \<Rightarrow> FrameDecoder \<Rightarrow> Status \<times> FrameDecoder" where
  "InitFrame ienv is_preview allow_partial allow_partial_dc output_needed s0 =
     (case InitFrame_header ienv is_preview allow_partial allow_partial_dc s0 of
        (hst, s) \<Rightarrow> if hst \<noteq> StatusOk then (hst, s) else InitFrame_toc ienv output_needed s)"

subsection \<open>The cap on the passes in DecodeFrame\<close>

record DecompressParams =
  dparams_max_passes :: nat
  dparams_max_downsampling :: nat

text \<open>
  The block of \<^verbatim>\<open>DecodeFrame\<close> that computes the argument of \<^verbatim>\<open>SetMaxPasses\<close>.
  \<^verbatim>\<open>last_pass[i] + 1\<close> is an addition of \<^verbatim>\<open>uint32_t\<close>.
\<close>

definition downsample_step :: "FrameHeader \<Rightarrow> nat \<Rightarrow> nat \<Rightarrow> nat \<Rightarrow> nat" where
  "downsample_step h max_downsampling i mp =
     (if max_downsampling \<ge> downsample (passes h) ! i \<and> mp > last_pass (passes h) ! i
      then (last_pass (passes h) ! i + 1) mod 2 ^ 32
      else mp)"

definition DecodeFrame_max_passes :: "DecompressParams \<Rightarrow> FrameHeader \<Rightarrow> nat" where
  "DecodeFrame_max_passes dparams h =
     (let mp = dparams_max_passes dparams;
          max_downsampling = max (drop_bit (dc_level h * 3) (dparams_max_downsampling dparams)) 1;
          mp = (if max_downsampling \<ge> 8 then 0
                else fold (downsample_step h max_downsampling) [0..<num_downsample (passes h)] mp);
          mp = (if frame_type h = kReferenceOnly then num_passes (passes h) else mp);
          mp = min mp (num_passes (passes h))
      in mp)"

text \<open>
  Modelled from the spec: the setter \<^verbatim>\<open>SetMaxPasses\<close> is declared in lib/jxl/dec\_frame.h,
  which is not among the sources; it stores the cap in \<^verbatim>\<open>max_passes_\<close> (section 3:
  \<open>max_passes\<close> may be clipped below the header's value by the progressive policy).
\<close>

definition SetMaxPasses :: "nat \<Rightarrow> FrameDecoder \<Rightarrow> FrameDecoder" where
  "SetMaxPasses mp s = s\<lparr>max_passes := mp\<rparr>"

subsection \<open>The states of a frame\<close>

text \<open>
  The states a frame goes through: \<^verbatim>\<open>InitFrame\<close> with \<open>output_needed\<close> set up the frame
  (valid frame dimensions have a DC group), then \<^verbatim>\<open>SetMaxPasses\<close> and
  \<^verbatim>\<open>ProcessSections\<close> are called any number of times, with any batches and whatever the
  sub-decoders return; a call of \<^verbatim>\<open>ProcessSections\<close> that fails leaves a state too.
\<close>

inductive reachable :: "FrameDecoder \<Rightarrow> bool" where
  reachable_init:
    "InitFrame ienv is_preview allow_partial allow_partial_dc True s0 = (StatusOk, s)
     \<Longrightarrow> 0 < num_dc_groups (frame_dim s) \<Longrightarrow> reachable s"
| reachable_max_passes:
    "reachable s \<Longrightarrow> reachable (SetMaxPasses mp s)"
| reachable_sections:
    "reachable s \<Longrightarrow> ProcessSections env sections s = (st, section_status, s')
     \<Longrightarrow> reachable s'"

subsection \<open>Invariants\<close>

text \<open>
  The order of the stages: there is a DC group; a DC group is decoded only after
  DC-global; the DC is finalised only when every DC group is decoded; AC-global is decoded
  only after the DC is finalised.
\<close>

definition stage_order :: "FrameDecoder \<Rightarrow> bool" where
  "stage_order s \<longleftrightarrow>
     decoded_dc_groups s \<noteq> [] \<and>
     (True \<in> set (decoded_dc_groups s) \<longrightarrow> decoded_dc_global s) \<and>
     (finalized_dc s \<longrightarrow> False \<notin> set (decoded_dc_groups s)) \<and>
     (decoded_ac_global s \<longrightarrow> finalized_dc s)"

text \<open>
  The positions of the batch that the local variables of \<^verbatim>\<open>ProcessSections\<close> hold, and
  the sections that are marked in \<^verbatim>\<open>processed_section_\<close>.
\<close>

definition slots :: "Locals \<Rightarrow> nat set" where
  "slots l =
     {dc_global_sec l, ac_global_sec l} \<union> set (dc_group_sec l)
       \<union> (\<Union>row\<in>set (ac_group_sec l). set row)"

definition section_processed :: "FrameDecoder \<Rightarrow> nat \<Rightarrow> bool" where
  "section_processed s sid \<longleftrightarrow> sid < length (processed_section s) \<and> processed_section s ! sid"

definition all_processed :: "SectionInfo list \<Rightarrow> FrameDecoder \<Rightarrow> bool" where
  "all_processed sections s \<longleftrightarrow>
     (\<forall>i<length sections. section_processed s (id_sec (sections ! i)))"

text \<open>
  Every entry of the batch either has its section marked as processed, or its status is
  still \<^verbatim>\<open>kSkipped\<close> and no local variable holds its position.
\<close>

definition accounted :: "SectionInfo list \<Rightarrow> Work \<Rightarrow> bool" where
  "accounted sections w =
     (case w of (s, l, st) \<Rightarrow>
        length st = length sections \<and>
        (\<forall>i<length sections.
           section_processed s (id_sec (sections ! i)) \<or> (st ! i = kSkipped \<and> i \<notin> slots l)))"

text \<open>The passes counted for a group lie inside the group's row of \<^verbatim>\<open>ac_group_sec\<close>.\<close>

definition passes_in_range :: "FrameDecoder \<Rightarrow> Locals \<Rightarrow> bool" where
  "passes_in_range s l \<longleftrightarrow>
     (\<forall>g<length (ac_group_sec l). \<forall>k<num_ac_passes l ! g.
         unat (decoded_passes_per_ac_group s ! g) + k < length (ac_group_sec l ! g))"

text \<open>The id of an AC-group section whose pass is not below the cap \<open>max_passes\<close>.\<close>

definition beyond_max_passes :: "FrameDecoder \<Rightarrow> nat \<Rightarrow> bool" where
  "beyond_max_passes s sid \<longleftrightarrow>
     num_dc_groups (frame_dim s) + 1 < sid \<and>
     max_passes s \<le> (sid - (num_dc_groups (frame_dim s) + 1) - 1) div num_groups (frame_dim s)"

text \<open>
  What the proofs track through a call on the decoder \<open>s0\<close>: every entry is accounted
  for, and the sections beyond the cap are marked as processed exactly as they were.
\<close>

definition tracked :: "SectionInfo list \<Rightarrow> FrameDecoder \<Rightarrow> Work \<Rightarrow> bool" where
  "tracked sections s0 w =
     (case w of (s, l, st) \<Rightarrow>
        accounted sections w \<and>
        (\<forall>k. beyond_max_passes s0 k \<longrightarrow> section_processed s k = section_processed s0 k))"

text \<open>The DC is finalised as soon as every DC group is decoded.\<close>

definition dc_settled :: "FrameDecoder \<Rightarrow> bool" where
  "dc_settled s \<longleftrightarrow> \<not> (min_element (decoded_dc_groups s) \<and> \<not> finalized_dc s)"

text \<open>The properties that one step of the classification keeps.\<close>

definition classified :: "SectionInfo list \<Rightarrow> FrameDecoder \<Rightarrow> Locals \<Rightarrow> Work \<Rightarrow> bool" where
  "classified sections s0 l0 w =
     (case w of (s, l, st) \<Rightarrow>
        tracked sections s0 w \<and>
        s\<lparr>processed_section := processed_section s0\<rparr> = s0 \<and>
        length (processed_section s) = length (processed_section s0) \<and>
        map length (ac_group_sec l) = map length (ac_group_sec l0) \<and>
        num_ac_passes l = num_ac_passes l0)"

text \<open>
  Before the AC groups run: the entries are tracked, and either the counted passes are in
  range or every section of the batch is marked as processed. At the end of a call: when
  it returns success the decoder went through \<^verbatim>\<open>MarkSections\<close>.
\<close>

definition ready :: "SectionInfo list \<Rightarrow> FrameDecoder \<Rightarrow> Work \<Rightarrow> bool" where
  "ready sections s0 w =
     (case w of (s, l, st) \<Rightarrow>
        tracked sections s0 w \<and> (passes_in_range s l \<or> all_processed sections s))"

definition finished :: "SectionInfo list \<Rightarrow> FrameDecoder \<Rightarrow> Status \<Rightarrow> Work \<Rightarrow> bool" where
  "finished sections s0 x w =
     (case w of (s', l, st) \<Rightarrow>
        if x = StatusOk
        then \<exists>s''. tracked sections s0 (s'', l, st) \<and> dc_settled s''
                   \<and> s' = MarkSections sections st s''
        else tracked sections s0 w)"

text \<open>Local variables that hold no position of the batch and count no new pass.\<close>

definition idle_ac :: "Locals \<Rightarrow> bool" where
  "idle_ac l \<longleftrightarrow> (\<forall>g<length (ac_group_sec l). num_ac_passes l ! g = 0)"



text \<open>The working state of \<^verbatim>\<open>ProcessSections\<close> with another cap on the passes.\<close>

definition cap_work :: "nat \<Rightarrow> Work \<Rightarrow> Work" where
  "cap_work mp w = (case w of (s, l, st) \<Rightarrow> (SetMaxPasses mp s, l, st))"

subsection \<open>Example frames\<close>

text \<open>
  A frame of one DC group and two AC groups with one pass: five sections (DC-global,
  one DC group, AC-global, two AC groups). \<open>fresh_frame\<close> is the decoder as
  \<^verbatim>\<open>InitFrame\<close> leaves it, \<open>complete_frame\<close> the decoder after all five sections.
\<close>

definition example_header :: FrameHeader where
  "example_header =
     \<lparr>encoding = kVarDCT, frame_type = kRegularFrame, flags = {}, dc_level = 0,
      passes = \<lparr>num_passes = 1, num_downsample = 0, downsample = [], last_pass = []\<rparr>,
      custom_size_or_origin = False,
      blending_info = \<lparr>mode = kReplace, source = 0\<rparr>,
      extra_channel_blending_info = [],
      chroma_subsampling_Is444 = True, CanBeReferenced = False, save_as_reference = 0,
      nonserialized_is_preview = False\<rparr>"

definition fresh_frame :: FrameDecoder where
  "fresh_frame =
     \<lparr>frame_header = example_header,
      frame_dim = \<lparr>num_groups = 2, num_dc_groups = 1\<rparr>,
      allow_partial_frames = False, allow_partial_dc_global = False,
      pause_at_progressive = False,
      decoded_dc_global = False, decoded_ac_global = False,
      is_finalized = False, finalized_dc = False, num_sections_done = 0,
      decoded_dc_groups = [False],
      decoded_passes_per_ac_group = [0, 0],
      processed_section = [False, False, False, False, False],
      max_passes = 1, num_renders = 0, allocated = False, epf_iters = 0,
      reference_saved = None, section_offsets_size = 5\<rparr>"

definition complete_frame :: FrameDecoder where
  "complete_frame =
     fresh_frame\<lparr>decoded_dc_global := True, decoded_ac_global := True, finalized_dc := True,
                 num_sections_done := 5, decoded_dc_groups := [True],
                 decoded_passes_per_ac_group := [1, 1],
                 processed_section := [True, True, True, True, True],
                 allocated := True\<rparr>"

text \<open>An environment in which every sub-decoder succeeds, and the same for a JPEG output.\<close>

definition ok_env :: Env where
  "ok_env =
     \<lparr>IsJPEG = False, has_extra_channels = False,
      DecodeDCGlobal = (\<lambda>reader. StatusOk),
      DecodeDCGroup = (\<lambda>g reader. StatusOk),
      PreparePipeline = StatusOk, InitForAC = StatusOk,
      DecodeACGlobal = (\<lambda>reader. StatusOk),
      DecodeACGroup = (\<lambda>g readers n force_draw dc_only. StatusOk),
      FinalizeDecoding = StatusOk,
      patches_GetReferences = 0\<rparr>"

definition jpeg_env :: Env where
  "jpeg_env = ok_env\<lparr>IsJPEG := True\<rparr>"

text \<open>The complete frame when its header has the flag \<^verbatim>\<open>kUseDcFrame\<close>.\<close>

definition dc_frame_user :: FrameDecoder where
  "dc_frame_user = complete_frame\<lparr>frame_header := example_header\<lparr>flags := {kUseDcFrame}\<rparr>\<rparr>"

text \<open>A frame that blends its colour channels from reference slot 2 and uses patches.\<close>

definition blending_frame :: FrameDecoder where
  "blending_frame =
     complete_frame\<lparr>frame_header :=
       example_header\<lparr>flags := {kPatches},
                      blending_info := \<lparr>mode = kBlend, source = 2\<rparr>,
                      extra_channel_blending_info :=
                        [\<lparr>mode = kReplace, source = 1\<rparr>, \<lparr>mode = kAdd, source = 3\<rparr>]\<rparr>\<rparr>"

definition patches_env :: Env where
  "patches_env = ok_env\<lparr>patches_GetReferences := 1\<rparr>"

text \<open>The complete frame after the cap on the passes was lowered below what was decoded.\<close>

definition over_decoded_frame :: FrameDecoder where
  "over_decoded_frame =
     complete_frame\<lparr>frame_header :=
                      example_header\<lparr>passes := (passes example_header)\<lparr>num_passes := 2\<rparr>\<rparr>,
                    decoded_passes_per_ac_group := [2, 2],
                    processed_section := replicate 7 True,
                    section_offsets_size := 7\<rparr>"

definition finalized_frame :: FrameDecoder where
  "finalized_frame = complete_frame\<lparr>is_finalized := True\<rparr>"

text \<open>The batch of all five sections of the example frame, and batches of one section.\<close>

definition all_sections :: "SectionInfo list" where
  "all_sections = map (\<lambda>i. \<lparr>br = i, id_sec = i\<rparr>) [0, 1, 2, 3, 4]"

definition one_section :: "nat \<Rightarrow> SectionInfo list" where
  "one_section sid = [\<lparr>br = sid, id_sec = sid\<rparr>]"

text \<open>
  A bit stream that holds the header and the TOC of the example frame; the same with a
  TOC whose total size makes the sum with the start of the group codes wrap; and a stream
  that ends before the frame header, with and without a DC frame in slot 0.
\<close>

definition example_init_env :: InitEnv where
  "example_init_env =
     \<lparr>TotalBytes_gt_pos = True,
      DecodeFrameHeader = (\<lambda>h. (StatusOk, example_header)),
      dc_frames0_xsize = 0,
      ToFrameDimensions = (\<lambda>h. \<lparr>num_groups = 2, num_dc_groups = 1\<rparr>),
      VerifyDimensions = (\<lambda>d. StatusOk),
      ReadGroupOffsets = (\<lambda>n. (StatusOk, n, 100)),
      group_codes_begin = 20,
      InitializePassesSharedState = StatusOk,
      dec_state_Init = StatusOk,
      decoded_IsJPEG = False, jpeg_num_components = 3, xyb_encoded = False\<rparr>"

definition overflow_init_env :: InitEnv where
  "overflow_init_env =
     example_init_env\<lparr>ReadGroupOffsets := (\<lambda>n. (StatusOk, n, 18446744073709551615))\<rparr>"

definition truncated_init_env :: InitEnv where
  "truncated_init_env = example_init_env\<lparr>TotalBytes_gt_pos := False, dc_frames0_xsize := 64\<rparr>"

definition empty_init_env :: InitEnv where
  "empty_init_env = example_init_env\<lparr>TotalBytes_gt_pos := False\<rparr>"

text \<open>Decoding parameters that ask for a downsampling of 8.\<close>

definition downsampled_params :: DecompressParams where
  "downsampled_params = \<lparr>dparams_max_passes = 11, dparams_max_downsampling = 8\<rparr>"



definition no_pass_frame :: FrameDecoder where
  "no_pass_frame = SetMaxPasses 0 fresh_frame"

definition reference_only_header :: FrameHeader where
  "reference_only_header = example_header\<lparr>frame_type := kReferenceOnly\<rparr>"

text \<open>
  The header of a DC frame of level 1, and a frame of a single section (one group, one
  pass) as \<^verbatim>\<open>InitFrame\<close> leaves it.
\<close>

definition dc_frame_header :: FrameHeader where
  "dc_frame_header = example_header\<lparr>frame_type := kDCFrame, dc_level := 1\<rparr>"

definition single_frame :: FrameDecoder where
  "single_frame =
     fresh_frame\<lparr>frame_dim := \<lparr>num_groups = 1, num_dc_groups = 1\<rparr>,
                 decoded_passes_per_ac_group := [0], processed_section := [False],
                 section_offsets_size := 1\<rparr>"

section \<open>Properties\<close>

lemmas example_defs =
  example_header_def fresh_frame_def complete_frame_def ok_env_def jpeg_env_def
  dc_frame_user_def blending_frame_def patches_env_def over_decoded_frame_def
  finalized_frame_def all_sections_def one_section_def

subsection \<open>HasEverything\<close>

lemma have_dc_groups_iff: "have_dc_groups xs \<longleftrightarrow> (\<forall>b\<in>set xs. b)"
  by (induction xs) auto

lemma have_passes_iff: "have_passes mp ws \<longleftrightarrow> (\<forall>w\<in>set ws. mp \<le> unat w)"
  by (induction ws) auto

lemma HasEverything_set:
  "HasEverything s \<longleftrightarrow>
     decoded_dc_global s \<and> decoded_ac_global s \<and> (\<forall>b\<in>set (decoded_dc_groups s). b) \<and>
     (\<forall>w\<in>set (decoded_passes_per_ac_group s). max_passes s \<le> unat w)"
  by (auto simp: HasEverything_def have_dc_groups_iff have_passes_iff)

text \<open>
  C3, as the code has it. \<^verbatim>\<open>HasEverything\<close> is true exactly when DC-global and AC-global
  are decoded, every DC group is decoded and no AC group has fewer than \<open>max_passes\<close>
  decoded passes (the loop tests \<^verbatim>\<open>nb_passes < max_passes_\<close>). In a state where no
  counter is above \<open>max_passes\<close> this is the same as every counter being equal to
  \<open>max_passes\<close>.
\<close>

theorem HasEverything_iff:
  "(HasEverything s \<longleftrightarrow>
      decoded_dc_global s \<and> decoded_ac_global s \<and>
      (\<forall>i<length (decoded_dc_groups s). decoded_dc_groups s ! i) \<and>
      (\<forall>g<length (decoded_passes_per_ac_group s).
          max_passes s \<le> unat (decoded_passes_per_ac_group s ! g))) \<and>
   ((\<forall>g<length (decoded_passes_per_ac_group s).
        unat (decoded_passes_per_ac_group s ! g) \<le> max_passes s) \<longrightarrow>
    (HasEverything s \<longleftrightarrow>
      decoded_dc_global s \<and> decoded_ac_global s \<and>
      (\<forall>i<length (decoded_dc_groups s). decoded_dc_groups s ! i) \<and>
      (\<forall>g<length (decoded_passes_per_ac_group s).
          unat (decoded_passes_per_ac_group s ! g) = max_passes s)))"
proof -
  have at_least: "HasEverything s \<longleftrightarrow>
      decoded_dc_global s \<and> decoded_ac_global s \<and>
      (\<forall>i<length (decoded_dc_groups s). decoded_dc_groups s ! i) \<and>
      (\<forall>g<length (decoded_passes_per_ac_group s).
          max_passes s \<le> unat (decoded_passes_per_ac_group s ! g))"
    unfolding HasEverything_set by (simp add: all_set_conv_all_nth)
  show ?thesis
  proof (intro conjI impI)
    show "HasEverything s \<longleftrightarrow>
      decoded_dc_global s \<and> decoded_ac_global s \<and>
      (\<forall>i<length (decoded_dc_groups s). decoded_dc_groups s ! i) \<and>
      (\<forall>g<length (decoded_passes_per_ac_group s).
          max_passes s \<le> unat (decoded_passes_per_ac_group s ! g))"
      by (rule at_least)
  next
    assume "\<forall>g<length (decoded_passes_per_ac_group s).
        unat (decoded_passes_per_ac_group s ! g) \<le> max_passes s"
    then have "(\<forall>g<length (decoded_passes_per_ac_group s).
          max_passes s \<le> unat (decoded_passes_per_ac_group s ! g)) \<longleftrightarrow>
       (\<forall>g<length (decoded_passes_per_ac_group s).
          unat (decoded_passes_per_ac_group s ! g) = max_passes s)"
      by (auto simp: le_antisym)
    with at_least show "HasEverything s \<longleftrightarrow>
      decoded_dc_global s \<and> decoded_ac_global s \<and>
      (\<forall>i<length (decoded_dc_groups s). decoded_dc_groups s ! i) \<and>
      (\<forall>g<length (decoded_passes_per_ac_group s).
          unat (decoded_passes_per_ac_group s ! g) = max_passes s)"
      by simp
  qed
qed

text \<open>The complete example frame: both counters are 1, the cap is 1, and it has everything.\<close>

theorem HasEverything_iff_witness:
  "unat (decoded_passes_per_ac_group complete_frame ! 0) \<le> max_passes complete_frame \<and>
   unat (decoded_passes_per_ac_group complete_frame ! 1) \<le> max_passes complete_frame \<and>
   HasEverything complete_frame"
  using HasEverything_iff [of complete_frame]
  by (simp add: example_defs less_Suc_eq numeral_2_eq_2)

text \<open>
  C3 as the claim words it fails where a counter is above the cap: with two decoded
  passes in each group and a cap of one pass, \<^verbatim>\<open>HasEverything\<close> is true although no
  counter equals \<open>max_passes\<close>.
\<close>

theorem HasEverything_equals_counterexample:
  "HasEverything over_decoded_frame \<and>
   0 < length (decoded_passes_per_ac_group over_decoded_frame) \<and>
   unat (decoded_passes_per_ac_group over_decoded_frame ! 0) \<noteq> max_passes over_decoded_frame"
  by (simp add: example_defs HasEverything_def)

subsection \<open>References\<close>

lemma fold_blend_step:
  "fold (blend_step c) xs r =
     r OR foldr (OR) (map (\<lambda>info. push_bit (source info) 1)
            (filter (\<lambda>info. c \<or> mode info \<noteq> kReplace) xs)) 0"
  by (induction xs arbitrary: r) (auto simp: blend_step_def ac_simps)

text \<open>
  C1, as the code has it. \<^verbatim>\<open>References\<close> is 0 when the frame is finalised (the guard
  \<^verbatim>\<open>if (is_finalized_) return 0\<close>) or not fully decoded; otherwise it is the bitwise OR
  of the blending source bits, the patch dictionary's references when the flag
  \<^verbatim>\<open>kPatches\<close> is set, and the bit \<open>16 << dc_level\<close> when \<^verbatim>\<open>kUseDcFrame\<close> is set.
\<close>

theorem References_eq:
  "References env s =
     (if is_finalized s \<or> \<not> HasEverything s then 0
      else blending_source_bits (frame_header s)
           OR patches_reference_bits env (frame_header s)
           OR dc_frame_bit (frame_header s))"
  by (auto simp: References_def Let_def fold_blend_step blending_source_bits_def
      patches_reference_bits_def dc_frame_bit_def blend_step_def ac_simps)

text \<open>
  A frame that blends its colour from slot 2 and an extra channel from slot 3, with
  patches that reference slot 0: the mask is \<open>4 + 8 + 1\<close>.
\<close>

theorem References_eq_witness: "References patches_env blending_frame = 13"
  using References_eq [of patches_env blending_frame]
  by (simp add: example_defs HasEverything_def blending_source_bits_def
      patches_reference_bits_def dc_frame_bit_def)

text \<open>
  C1 as the claim words it ("0 when the frame is not finalised") fails: the complete
  frame that uses a DC frame is not finalised and its mask is 16.
\<close>

theorem References_not_finalized_counterexample:
  "\<not> is_finalized dc_frame_user \<and> HasEverything dc_frame_user \<and>
   References ok_env dc_frame_user = 16"
  by (simp add: example_defs HasEverything_def References_def blend_step_def)

subsection \<open>FinalizeFrame\<close>

lemma AllocateOutput_state:
  "AllocateOutput env s = (st, s') \<Longrightarrow> s'\<lparr>allocated := allocated s\<rparr> = s"
  by (auto simp: AllocateOutput_def Let_def split: if_splits)

lemma ProcessACGroup_no_passes:
  "ProcessACGroup env g readers 0 force_draw dc_only s = (st, s') \<Longrightarrow> s' = s"
  by (auto simp: ProcessACGroup_def Let_def split: if_splits)

lemma force_draw_task_state: "snd (force_draw_task env g (e, s)) = s"
  by (auto simp: force_draw_task_def split: prod.splits dest: ProcessACGroup_no_passes)

lemma fold_force_draw_task_state: "snd (fold (force_draw_task env) gs (e, s)) = s"
proof (induction gs arbitrary: e)
  case Nil
  show ?case by simp
next
  case (Cons g gs)
  obtain e' where "force_draw_task env g (e, s) = (e', s)"
    using force_draw_task_state [of env g e s] by (cases "force_draw_task env g (e, s)") auto
  then show ?case using Cons.IH by simp
qed

text \<open>\<^verbatim>\<open>Flush\<close> changes nothing but \<open>allocated\<close> and \<open>num_renders\<close>.\<close>

lemma Flush_state:
  assumes "Flush env s = (st, s')"
  shows "s'\<lparr>allocated := allocated s, num_renders := num_renders s\<rparr> = s"
proof -
  obtain ast s1 where a: "AllocateOutput env s = (ast, s1)"
    by (cases "AllocateOutput env s")
  then have s1: "s1\<lparr>allocated := allocated s\<rparr> = s"
    by (rule AllocateOutput_state)
  then have s1': "s1\<lparr>allocated := allocated s, num_renders := num_renders s\<rparr> = s"
    by (drule_tac arg_cong [where f = "\<lambda>x. x\<lparr>num_renders := num_renders s\<rparr>"]) simp
  have f: "\<And>e s2 gs. fold (force_draw_task env) gs (False, s1) = (e, s2) \<Longrightarrow> s2 = s1"
    using fold_force_draw_task_state [of env _ False s1] by (metis snd_conv)
  show ?thesis
    using assms a s1'
    by (auto simp: Flush_def Let_def split: if_splits prod.splits dest!: f)
qed

lemma FinalizeFrame_state:
  assumes "FinalizeFrame env s = (st, s')" and "\<not> is_finalized s"
  shows "s'\<lparr>epf_iters := epf_iters s, allocated := allocated s,
            num_renders := num_renders s, reference_saved := reference_saved s\<rparr>
         = s\<lparr>is_finalized := True\<rparr>"
proof -
  define t where "t = s\<lparr>is_finalized := True\<rparr>"
  define u where "u = (if \<not> finalized_dc t then t\<lparr>epf_iters := 0\<rparr> else t)"
  define undo where "undo = (\<lambda>x::FrameDecoder. x\<lparr>epf_iters := epf_iters s,
      allocated := allocated s, num_renders := num_renders s, reference_saved := reference_saved s\<rparr>)"
  have undo_t: "undo t = t" and undo_u: "undo u = t"
    by (simp_all add: undo_def t_def u_def)
  have undo_alloc: "undo x = t" if "AllocateOutput env u = (ast, x)" for ast x
  proof -
    have "x\<lparr>allocated := allocated u\<rparr> = u" using that by (rule AllocateOutput_state)
    then have "undo (x\<lparr>allocated := allocated u\<rparr>) = undo u" by simp
    then show ?thesis using undo_u by (simp add: undo_def)
  qed
  have undo_flush: "undo y = t" if "Flush env x = (fs, y)" and "undo x = t" for fs x y
  proof -
    have "y\<lparr>allocated := allocated x, num_renders := num_renders x\<rparr> = x"
      using that(1) by (rule Flush_state)
    then have "undo (y\<lparr>allocated := allocated x, num_renders := num_renders x\<rparr>) = undo x" by simp
    then show ?thesis using that(2) by (simp add: undo_def)
  qed
  have undo_ref: "undo (x\<lparr>reference_saved := v\<rparr>) = undo x" for x v
    by (simp add: undo_def)
  have "undo s' = t"
    using assms undo_t undo_u
    unfolding FinalizeFrame_def Let_def t_def [symmetric] u_def [symmetric]
    by (auto split: if_splits prod.splits simp: undo_ref dest: undo_alloc undo_flush)
  then show ?thesis by (simp add: undo_def t_def)
qed

lemma FinalizeFrame_finalized: "FinalizeFrame env s = (st, s') \<Longrightarrow> is_finalized s'"
proof (cases "is_finalized s")
  case True
  assume "FinalizeFrame env s = (st, s')"
  with True show ?thesis by (simp add: FinalizeFrame_def)
next
  case False
  assume "FinalizeFrame env s = (st, s')"
  from FinalizeFrame_state [OF this False] show ?thesis
    by (drule_tac arg_cong [where f = is_finalized]) simp
qed

lemma FinalizeFrame_HasEverything:
  assumes "FinalizeFrame env s = (st, s')"
  shows "HasEverything s' = HasEverything s" and "allow_partial_frames s' = allow_partial_frames s"
proof -
  have "HasEverything s' = HasEverything s \<and> allow_partial_frames s' = allow_partial_frames s"
  proof (cases "is_finalized s")
    case True
    with assms show ?thesis by (simp add: FinalizeFrame_def)
  next
    case False
    note e = FinalizeFrame_state [OF assms False]
    have "decoded_dc_global s' = decoded_dc_global s"
      using e by (drule_tac arg_cong [where f = decoded_dc_global]) simp
    moreover have "decoded_ac_global s' = decoded_ac_global s"
      using e by (drule_tac arg_cong [where f = decoded_ac_global]) simp
    moreover have "decoded_dc_groups s' = decoded_dc_groups s"
      using e by (drule_tac arg_cong [where f = decoded_dc_groups]) simp
    moreover have "decoded_passes_per_ac_group s' = decoded_passes_per_ac_group s"
      using e by (drule_tac arg_cong [where f = decoded_passes_per_ac_group]) simp
    moreover have "max_passes s' = max_passes s"
      using e by (drule_tac arg_cong [where f = max_passes]) simp
    moreover have "allow_partial_frames s' = allow_partial_frames s"
      using e by (drule_tac arg_cong [where f = allow_partial_frames]) simp
    ultimately show ?thesis by (simp add: HasEverything_def)
  qed
  then show "HasEverything s' = HasEverything s"
    and "allow_partial_frames s' = allow_partial_frames s" by simp_all
qed

lemma FinalizeFrame_checked:
  assumes "FinalizeFrame env s = (StatusOk, s')" and "\<not> IsJPEG env"
  shows "HasEverything s \<or> allow_partial_frames s"
proof -
  have h: "HasEverything (s\<lparr>is_finalized := True\<rparr>) = HasEverything s"
    "HasEverything (s\<lparr>is_finalized := True, epf_iters := 0\<rparr>) = HasEverything s"
    by (simp_all add: HasEverything_def)
  show ?thesis
    using assms by (auto simp: FinalizeFrame_def Let_def h split: if_splits)
qed

text \<open>
  C2, as the code has it. When the output is not a JPEG reconstruction, \<^verbatim>\<open>FinalizeFrame\<close>
  on a frame that is not finalised fails with "FinalizeFrame called before the frame was
  fully decoded" unless \<^verbatim>\<open>HasEverything\<close> holds or partial frames are allowed, and after
  a call that succeeds the frame is finalised and \<^verbatim>\<open>HasEverything\<close> or
  \<open>allow_partial_frames\<close> holds. When the output is a JPEG reconstruction the call
  returns success right after setting the flag ("nothing to do"), without the check.
\<close>

theorem FinalizeFrame_requires_everything:
  "(\<not> is_finalized s \<and> \<not> IsJPEG env \<and> \<not> HasEverything s \<and> \<not> allow_partial_frames s \<longrightarrow>
      fst (FinalizeFrame env s) =
        JXL_FAILURE ''FinalizeFrame called before the frame was fully decoded'') \<and>
   (FinalizeFrame env s = (StatusOk, s') \<and> \<not> IsJPEG env \<longrightarrow>
      is_finalized s' \<and> (HasEverything s' \<or> allow_partial_frames s')) \<and>
   (\<not> is_finalized s \<and> IsJPEG env \<longrightarrow>
      FinalizeFrame env s = (StatusOk, s\<lparr>is_finalized := True\<rparr>))"
proof (intro conjI impI)
  assume "\<not> is_finalized s \<and> \<not> IsJPEG env \<and> \<not> HasEverything s \<and> \<not> allow_partial_frames s"
  moreover have "HasEverything (s\<lparr>is_finalized := True\<rparr>) = HasEverything s"
    "HasEverything (s\<lparr>is_finalized := True, epf_iters := 0\<rparr>) = HasEverything s"
    by (simp_all add: HasEverything_def)
  ultimately show "fst (FinalizeFrame env s) =
      JXL_FAILURE ''FinalizeFrame called before the frame was fully decoded''"
    by (simp add: FinalizeFrame_def Let_def)
next
  assume a: "FinalizeFrame env s = (StatusOk, s') \<and> \<not> IsJPEG env"
  then have ok: "FinalizeFrame env s = (StatusOk, s')" and nj: "\<not> IsJPEG env" by simp_all
  from ok show "is_finalized s'" by (rule FinalizeFrame_finalized)
  from ok nj have "HasEverything s \<or> allow_partial_frames s" by (rule FinalizeFrame_checked)
  with a show "HasEverything s' \<or> allow_partial_frames s'"
    using FinalizeFrame_HasEverything [of env s StatusOk s'] by simp
next
  assume "\<not> is_finalized s \<and> IsJPEG env"
  then show "FinalizeFrame env s = (StatusOk, s\<lparr>is_finalized := True\<rparr>)"
    by (simp add: FinalizeFrame_def Let_def)
qed

lemma FinalizeFrame_complete_frame:
  "FinalizeFrame ok_env complete_frame =
     (StatusOk, complete_frame\<lparr>is_finalized := True, num_renders := 1\<rparr>)"
  by (simp add: example_defs FinalizeFrame_def HasEverything_def Flush_def AllocateOutput_def
      min_element_def)

text \<open>
  The complete example frame is finalised with success; the fresh one, of which nothing
  is decoded, is refused.
\<close>

theorem FinalizeFrame_requires_everything_witness:
  "\<not> IsJPEG ok_env \<and>
   FinalizeFrame ok_env complete_frame =
     (StatusOk, complete_frame\<lparr>is_finalized := True, num_renders := 1\<rparr>) \<and>
   HasEverything (complete_frame\<lparr>is_finalized := True, num_renders := 1\<rparr>) \<and>
   \<not> is_finalized fresh_frame \<and> \<not> HasEverything fresh_frame \<and>
   \<not> allow_partial_frames fresh_frame \<and>
   fst (FinalizeFrame ok_env fresh_frame) =
     JXL_FAILURE ''FinalizeFrame called before the frame was fully decoded'' \<and>
   IsJPEG jpeg_env \<and> fst (FinalizeFrame jpeg_env fresh_frame) = StatusOk"
  using FinalizeFrame_requires_everything
          [of complete_frame ok_env "complete_frame\<lparr>is_finalized := True, num_renders := 1\<rparr>"]
        FinalizeFrame_requires_everything [of fresh_frame ok_env]
        FinalizeFrame_requires_everything [of fresh_frame jpeg_env]
        FinalizeFrame_complete_frame
  by (simp add: example_defs HasEverything_def FinalizeFrame_def)

text \<open>
  C2 as the claim words it fails for a JPEG reconstruction: of the fresh frame nothing is
  decoded and partial frames are not allowed, and \<^verbatim>\<open>FinalizeFrame\<close> succeeds.
\<close>

theorem FinalizeFrame_jpeg_counterexample:
  "\<not> is_finalized fresh_frame \<and> \<not> HasEverything fresh_frame \<and>
   \<not> allow_partial_frames fresh_frame \<and>
   FinalizeFrame jpeg_env fresh_frame = (StatusOk, fresh_frame\<lparr>is_finalized := True\<rparr>) \<and>
   \<not> HasEverything (fresh_frame\<lparr>is_finalized := True\<rparr>)"
  by (simp add: example_defs HasEverything_def FinalizeFrame_def)

text \<open>
  C9. Every call of \<^verbatim>\<open>FinalizeFrame\<close> leaves the frame finalised, whatever it returns; on
  a finalised frame the call fails with "FinalizeFrame called multiple times" and leaves
  the decoder as it was. So a call that follows another call fails and does nothing.
\<close>

theorem FinalizeFrame_at_most_once:
  "is_finalized (snd (FinalizeFrame env s)) \<and>
   (is_finalized s \<longrightarrow>
      FinalizeFrame env' s = (JXL_FAILURE ''FinalizeFrame called multiple times'', s)) \<and>
   FinalizeFrame env' (snd (FinalizeFrame env s)) =
     (JXL_FAILURE ''FinalizeFrame called multiple times'', snd (FinalizeFrame env s))"
proof -
  have f: "is_finalized (snd (FinalizeFrame env s))"
    by (rule FinalizeFrame_finalized [of env s "fst (FinalizeFrame env s)"]) simp
  have r: "FinalizeFrame env' x = (JXL_FAILURE ''FinalizeFrame called multiple times'', x)"
    if "is_finalized x" for x
    using that by (simp add: FinalizeFrame_def)
  show ?thesis using f r by blast
qed

theorem FinalizeFrame_at_most_once_witness:
  "is_finalized finalized_frame \<and>
   FinalizeFrame ok_env finalized_frame =
     (JXL_FAILURE ''FinalizeFrame called multiple times'', finalized_frame) \<and>
   FinalizeFrame ok_env (complete_frame\<lparr>is_finalized := True, num_renders := 1\<rparr>) =
     (JXL_FAILURE ''FinalizeFrame called multiple times'',
      complete_frame\<lparr>is_finalized := True, num_renders := 1\<rparr>)"
  using FinalizeFrame_at_most_once [of ok_env finalized_frame ok_env]
        FinalizeFrame_at_most_once [of ok_env complete_frame ok_env]
        FinalizeFrame_complete_frame
  by (simp add: finalized_frame_def)

subsection \<open>InitFrame\<close>

lemma wrap_iff: "(x + y < x) \<longleftrightarrow> 2 ^ 64 \<le> unat x + unat y" for x y :: "64 word"
proof -
  have "(x + y < x) \<longleftrightarrow> \<not> (x \<le> x + y)" by (simp add: not_le)
  also have "\<dots> \<longleftrightarrow> \<not> (unat x + unat y < 2 ^ 64)" by (simp add: no_olen_add_nat)
  also have "\<dots> \<longleftrightarrow> 2 ^ 64 \<le> unat x + unat y" by (simp add: not_less)
  finally show ?thesis .
qed

lemma InitFrame_header_allow_partial:
  "InitFrame_header ienv is_preview allow_partial allow_partial_dc s0 = (StatusOk, s1)
   \<Longrightarrow> allow_partial_frames s1 = allow_partial"
  by (auto simp: InitFrame_header_def Let_def split: if_splits prod.splits)

text \<open>
  C8. When \<^verbatim>\<open>InitFrame\<close> gets as far as the TOC (the previous frame is finalised, the
  header is read or synthesized, the dimensions are valid, the offsets are read or
  partial frames are allowed) and the sum of \<open>group_codes_begin\<close> and
  \<open>groups_total_size\<close> does not fit in 64 bits, it returns "Invalid group codes" at
  once: the decoder is as the header and the TOC left it, nothing is reset.
\<close>

theorem InitFrame_invalid_group_codes:
  assumes "InitFrame_header ienv is_preview allow_partial allow_partial_dc s0 = (StatusOk, s1)"
    and "VerifyDimensions ienv (ToFrameDimensions ienv (frame_header s1)) = StatusOk"
    and "ReadGroupOffsets ienv
           (NumTocEntries (num_groups (ToFrameDimensions ienv (frame_header s1)))
              (num_dc_groups (ToFrameDimensions ienv (frame_header s1)))
              (num_passes (passes (frame_header s1))) True) = (rst, n, groups_total_size)"
    and "rst = StatusOk \<or> allow_partial"
    and "2 ^ 64 \<le> unat (group_codes_begin ienv) + unat groups_total_size"
  shows "InitFrame ienv is_preview allow_partial allow_partial_dc output_needed s0 =
           (JXL_FAILURE ''Invalid group codes'',
            s1\<lparr>frame_dim := ToFrameDimensions ienv (frame_header s1),
               section_offsets_size := n\<rparr>)"
  using assms InitFrame_header_allow_partial [OF assms(1)]
  by (auto simp: InitFrame_def InitFrame_toc_def Let_def wrap_iff)

text \<open>The group codes start at byte 20 and the TOC totals \<open>2^64 - 1\<close> bytes.\<close>

theorem InitFrame_invalid_group_codes_witness:
  "InitFrame_header overflow_init_env False False False finalized_frame
     = (StatusOk, finalized_frame) \<and>
   VerifyDimensions overflow_init_env
     (ToFrameDimensions overflow_init_env (frame_header finalized_frame)) = StatusOk \<and>
   ReadGroupOffsets overflow_init_env 5 = (StatusOk, 5, 18446744073709551615) \<and>
   (2::nat) ^ 64 \<le> unat (group_codes_begin overflow_init_env)
                  + unat (18446744073709551615 :: 64 word) \<and>
   InitFrame overflow_init_env False False False True finalized_frame =
     (JXL_FAILURE ''Invalid group codes'', finalized_frame)"
  using InitFrame_invalid_group_codes
          [of overflow_init_env False False False finalized_frame finalized_frame
              StatusOk 5 18446744073709551615 True]
  by (simp add: example_defs overflow_init_env_def example_init_env_def InitFrame_header_def
      NumTocEntries_def)

text \<open>
  C10. When the frame header cannot be read (the reader is exhausted or
  \<^verbatim>\<open>DecodeFrameHeader\<close> fails) and partial frames are allowed: with a DC frame in slot 0
  the header gets the flag \<^verbatim>\<open>kUseDcFrame\<close>, the encoding VarDCT and DC level 0, and
  \<^verbatim>\<open>InitFrame\<close> goes on with the dimensions and the TOC; with an empty slot 0 it fails
  with "Couldn't read frame header".
\<close>

theorem InitFrame_without_header:
  assumes "is_finalized s0"
    and "\<not> (TotalBytes_gt_pos ienv \<and>
            fst (DecodeFrameHeader ienv
                   ((frame_header s0)\<lparr>nonserialized_is_preview := is_preview\<rparr>)) = StatusOk)"
  shows "(0 < dc_frames0_xsize ienv \<longrightarrow>
            (\<exists>s1. InitFrame_header ienv is_preview True allow_partial_dc s0 = (StatusOk, s1) \<and>
                  kUseDcFrame \<in> flags (frame_header s1) \<and>
                  encoding (frame_header s1) = kVarDCT \<and> dc_level (frame_header s1) = 0 \<and>
                  InitFrame ienv is_preview True allow_partial_dc output_needed s0 =
                    InitFrame_toc ienv output_needed s1)) \<and>
         (dc_frames0_xsize ienv = 0 \<longrightarrow>
            fst (InitFrame ienv is_preview True allow_partial_dc output_needed s0) =
              JXL_FAILURE ''Couldn't read frame header'')"
  using assms
  by (auto simp: InitFrame_def InitFrame_header_def Let_def split: prod.splits)

text \<open>
  The stream that ends before the header: with a DC frame of width 64 in slot 0
  \<^verbatim>\<open>InitFrame\<close> succeeds with the synthesized header, with an empty slot it fails.
\<close>

theorem InitFrame_without_header_witness:
  "is_finalized finalized_frame \<and> \<not> TotalBytes_gt_pos truncated_init_env \<and>
   0 < dc_frames0_xsize truncated_init_env \<and>
   fst (InitFrame truncated_init_env False True False True finalized_frame) = StatusOk \<and>
   flags (frame_header (snd (InitFrame truncated_init_env False True False True finalized_frame)))
     = {kUseDcFrame} \<and>
   \<not> TotalBytes_gt_pos empty_init_env \<and> dc_frames0_xsize empty_init_env = 0 \<and>
   fst (InitFrame empty_init_env False True False True finalized_frame) =
     JXL_FAILURE ''Couldn't read frame header''"
  using InitFrame_without_header [of finalized_frame truncated_init_env False False True]
        InitFrame_without_header [of finalized_frame empty_init_env False False True]
  by (simp add: example_defs truncated_init_env_def empty_init_env_def example_init_env_def
      InitFrame_def InitFrame_header_def InitFrame_toc_def NumTocEntries_def clear_state_def)

subsection \<open>ProcessSections: the order of the stages\<close>


lemma and_then_rule:
  assumes "case r of (None, w) \<Rightarrow> G w | (Some st, w) \<Rightarrow> F st w"
    and "\<And>w. G w \<Longrightarrow> (case f w of (None, w') \<Rightarrow> G' w' | (Some st, w') \<Rightarrow> F st w')"
  shows "case and_then r f of (None, w') \<Rightarrow> G' w' | (Some st, w') \<Rightarrow> F st w'"
proof (cases r)
  case (Pair x w)
  show ?thesis
  proof (cases x)
    case None
    with Pair assms(1) have "G w" by simp
    then show ?thesis using assms(2) [of w] Pair None by (simp add: and_then_def)
  next
    case (Some st)
    with Pair assms(1) show ?thesis by (simp add: and_then_def)
  qed
qed

lemma nth_update_True: "xs ! k \<Longrightarrow> (xs[i := True]) ! k"
  by (cases "i < length xs") (auto simp: nth_list_update list_update_beyond)

lemma min_element_bool: "xs \<noteq> [] \<Longrightarrow> min_element xs \<longleftrightarrow> False \<notin> set xs"
proof -
  have f: "fold min ys a \<longleftrightarrow> a \<and> False \<notin> set ys" for ys :: "bool list" and a
    by (induction ys arbitrary: a) (auto simp: min_def)
  assume "xs \<noteq> []"
  then obtain a ys where "xs = a # ys" by (cases xs) auto
  then show ?thesis by (simp add: min_element_def f)
qed

lemma dc_global_stage_effect:
  assumes "dc_global_stage env sections (s, l, st) = (r, (s', l', st'))"
  shows "l' = l" and "s' = s \<or> s' = s\<lparr>decoded_dc_global := True\<rparr>"
    and "st' = st \<or> (\<exists>x. st' = st[dc_global_sec l := x])"
    and "r \<noteq> Some StatusOk"
  using assms
  by (auto simp: dc_global_stage_def ProcessDCGlobal_def Let_def split: if_splits)

lemma ProcessDCGroup_effect:
  "ProcessDCGroup env g reader s = (r, s') \<Longrightarrow>
     s' = s \<or> (r = StatusOk \<and> s' = s\<lparr>decoded_dc_groups := (decoded_dc_groups s)[g := True]\<rparr>)"
  by (auto simp: ProcessDCGroup_def Let_def split: if_splits)

lemma dc_group_task_effect:
  assumes "dc_group_task env sections l i (e, s, st) = (e', s', st')"
  shows "\<exists>dcg. s' = s\<lparr>decoded_dc_groups := dcg\<rparr> \<and> length dcg = length (decoded_dc_groups s)
            \<and> (\<forall>k. decoded_dc_groups s ! k \<longrightarrow> dcg ! k)"
    and "st' = st \<or> st' = st[dc_group_sec l ! i := kDone]"
proof -
  have triv: "\<exists>dcg. s = s\<lparr>decoded_dc_groups := dcg\<rparr> \<and> length dcg = length (decoded_dc_groups s)
            \<and> (\<forall>k. decoded_dc_groups s ! k \<longrightarrow> dcg ! k)"
    by (rule exI [of _ "decoded_dc_groups s"]) simp
  have upd: "\<exists>dcg. s\<lparr>decoded_dc_groups := (decoded_dc_groups s)[i := True]\<rparr>
               = s\<lparr>decoded_dc_groups := dcg\<rparr> \<and> length dcg = length (decoded_dc_groups s)
            \<and> (\<forall>k. decoded_dc_groups s ! k \<longrightarrow> dcg ! k)"
    by (rule exI [of _ "(decoded_dc_groups s)[i := True]"])
       (auto simp: nth_update_True)
  show "\<exists>dcg. s' = s\<lparr>decoded_dc_groups := dcg\<rparr> \<and> length dcg = length (decoded_dc_groups s)
            \<and> (\<forall>k. decoded_dc_groups s ! k \<longrightarrow> dcg ! k)"
    using assms triv upd
    by (auto simp: dc_group_task_def split: if_splits prod.splits dest!: ProcessDCGroup_effect)
  show "st' = st \<or> st' = st[dc_group_sec l ! i := kDone]"
    using assms by (auto simp: dc_group_task_def split: if_splits prod.splits)
qed


lemma fold_dc_group_task_effect:
  assumes "fold (dc_group_task env sections l) gs (e, s, st) = (e', s', st')"
  shows "\<exists>dcg. s' = s\<lparr>decoded_dc_groups := dcg\<rparr> \<and> length dcg = length (decoded_dc_groups s)
            \<and> (\<forall>k. decoded_dc_groups s ! k \<longrightarrow> dcg ! k)"
  using assms
proof (induction gs arbitrary: e s st)
  case Nil
  then have "s' = s" by simp
  then show ?case by (intro exI [of _ "decoded_dc_groups s"]) simp
next
  case (Cons g gs)
  obtain e1 s1 st1 where t: "dc_group_task env sections l g (e, s, st) = (e1, s1, st1)"
    by (cases "dc_group_task env sections l g (e, s, st)")
  from dc_group_task_effect(1) [OF t] obtain dcg1 where
    s1: "s1 = s\<lparr>decoded_dc_groups := dcg1\<rparr>" and len1: "length dcg1 = length (decoded_dc_groups s)"
    and mono1: "\<forall>k. decoded_dc_groups s ! k \<longrightarrow> dcg1 ! k" by blast
  from Cons.prems t have "fold (dc_group_task env sections l) gs (e1, s1, st1) = (e', s', st')"
    by simp
  from Cons.IH [OF this] obtain dcg where
    s': "s' = s1\<lparr>decoded_dc_groups := dcg\<rparr>" and len: "length dcg = length (decoded_dc_groups s1)"
    and mono: "\<forall>k. decoded_dc_groups s1 ! k \<longrightarrow> dcg ! k" by blast
  show ?case
    using s1 len1 mono1 s' len mono by (intro exI [of _ dcg]) simp
qed

lemma dc_groups_stage_effect:
  assumes "dc_groups_stage env sections (s, l, st) = (r, (s', l', st'))"
  shows "l' = l" and "r \<noteq> Some StatusOk"
    and "\<exists>dcg. s' = s\<lparr>decoded_dc_groups := dcg\<rparr> \<and> length dcg = length (decoded_dc_groups s)
            \<and> (\<forall>k. decoded_dc_groups s ! k \<longrightarrow> dcg ! k)
            \<and> (dcg \<noteq> decoded_dc_groups s \<longrightarrow> decoded_dc_global s)"
proof -
  show "l' = l" and "r \<noteq> Some StatusOk"
    using assms by (auto simp: dc_groups_stage_def split: if_splits prod.splits)
  show "\<exists>dcg. s' = s\<lparr>decoded_dc_groups := dcg\<rparr> \<and> length dcg = length (decoded_dc_groups s)
            \<and> (\<forall>k. decoded_dc_groups s ! k \<longrightarrow> dcg ! k)
            \<and> (dcg \<noteq> decoded_dc_groups s \<longrightarrow> decoded_dc_global s)"
  proof (cases "decoded_dc_global s")
    case True
    obtain e1 s1 st1 where f: "fold (dc_group_task env sections l) [0..<length (dc_group_sec l)]
        (False, s, st) = (e1, s1, st1)"
      by (cases "fold (dc_group_task env sections l) [0..<length (dc_group_sec l)] (False, s, st)")
    with assms True have "s' = s1"
      by (auto simp: dc_groups_stage_def split: if_splits)
    with fold_dc_group_task_effect [OF f] True show ?thesis by auto
  next
    case False
    with assms have "s' = s"
      by (auto simp: dc_groups_stage_def split: if_splits)
    then show ?thesis by (intro exI [of _ "decoded_dc_groups s"]) simp
  qed
qed

lemma MarkSections_step_effect:
  "\<exists>p n. MarkSections_step sections st i s = s\<lparr>processed_section := p, num_sections_done := n\<rparr>
         \<and> length p = length (processed_section s) \<and> (\<forall>k. p ! k \<longrightarrow> processed_section s ! k)"
proof (cases "st ! i = kSkipped \<or> st ! i = kPartial")
  case True
  have "\<forall>k. (processed_section s)[id_sec (sections ! i) := False] ! k \<longrightarrow> processed_section s ! k"
    by (metis list_update_beyond not_le nth_list_update_eq nth_list_update_neq)
  with True show ?thesis
    by (intro exI [of _ "(processed_section s)[id_sec (sections ! i) := False]"]
        exI [of _ "num_sections_done s - 1"]) (simp add: MarkSections_step_def)
next
  case False
  then show ?thesis
    by (intro exI [of _ "processed_section s"] exI [of _ "num_sections_done s"])
       (simp add: MarkSections_step_def)
qed

lemma fold_MarkSections_step_effect:
  "\<exists>p n. fold (MarkSections_step sections st) is s = s\<lparr>processed_section := p, num_sections_done := n\<rparr>
         \<and> length p = length (processed_section s) \<and> (\<forall>k. p ! k \<longrightarrow> processed_section s ! k)"
proof (induction "is" arbitrary: s)
  case Nil
  show ?case
    by (intro exI [of _ "processed_section s"] exI [of _ "num_sections_done s"]) simp
next
  case (Cons i "is")
  obtain p1 n1 where s1: "MarkSections_step sections st i s
        = s\<lparr>processed_section := p1, num_sections_done := n1\<rparr>"
    and l1: "length p1 = length (processed_section s)"
    and m1: "\<forall>k. p1 ! k \<longrightarrow> processed_section s ! k"
    using MarkSections_step_effect [of sections st i s] by blast
  obtain p n where s2: "fold (MarkSections_step sections st) is (MarkSections_step sections st i s)
        = (MarkSections_step sections st i s)\<lparr>processed_section := p, num_sections_done := n\<rparr>"
    and l2: "length p = length (processed_section (MarkSections_step sections st i s))"
    and m2: "\<forall>k. p ! k \<longrightarrow> processed_section (MarkSections_step sections st i s) ! k"
    using Cons.IH [of "MarkSections_step sections st i s"] by blast
  show ?case
    using s1 l1 m1 s2 l2 m2 by (intro exI [of _ p] exI [of _ n]) simp
qed

lemma MarkSections_effect:
  "\<exists>p n. MarkSections sections st s = s\<lparr>processed_section := p, num_sections_done := n\<rparr>
         \<and> length p = length (processed_section s) \<and> (\<forall>k. p ! k \<longrightarrow> processed_section s ! k)"
proof -
  obtain p n where "fold (MarkSections_step sections st) [0..<length sections]
        (s\<lparr>num_sections_done := length sections\<rparr>)
      = (s\<lparr>num_sections_done := length sections\<rparr>)\<lparr>processed_section := p, num_sections_done := n\<rparr>"
    and "length p = length (processed_section (s\<lparr>num_sections_done := length sections\<rparr>))"
    and "\<forall>k. p ! k \<longrightarrow> processed_section (s\<lparr>num_sections_done := length sections\<rparr>) ! k"
    using fold_MarkSections_step_effect
      [of sections st "[0..<length sections]" "s\<lparr>num_sections_done := length sections\<rparr>"]
    by blast
  then show ?thesis
    by (intro exI [of _ p] exI [of _ n]) (simp add: MarkSections_def)
qed

lemma stage_order_other_fields [simp]:
  "stage_order (s\<lparr>processed_section := p\<rparr>) = stage_order s"
  "stage_order (s\<lparr>num_sections_done := n\<rparr>) = stage_order s"
  "stage_order (s\<lparr>allocated := a\<rparr>) = stage_order s"
  "stage_order (s\<lparr>decoded_passes_per_ac_group := d\<rparr>) = stage_order s"
  "stage_order (s\<lparr>max_passes := m\<rparr>) = stage_order s"
  by (simp_all add: stage_order_def)

lemma stage_order_MarkSections [simp]:
  "stage_order (MarkSections sections st s) = stage_order s"
proof -
  obtain p n where "MarkSections sections st s = s\<lparr>processed_section := p, num_sections_done := n\<rparr>"
    using MarkSections_effect [of sections st s] by blast
  then show ?thesis by simp
qed

lemma dc_global_stage_order:
  assumes "dc_global_stage env sections (s, l, st) = (r, (s', l', st'))" and "stage_order s"
  shows "stage_order s'"
  using dc_global_stage_effect(2) [OF assms(1)] assms(2)
  by (auto simp: stage_order_def)

lemma dc_groups_stage_order:
  assumes "dc_groups_stage env sections (s, l, st) = (r, (s', l', st'))" and "stage_order s"
  shows "stage_order s'"
proof -
  obtain dcg where s': "s' = s\<lparr>decoded_dc_groups := dcg\<rparr>"
    and len: "length dcg = length (decoded_dc_groups s)"
    and mono: "\<forall>k. decoded_dc_groups s ! k \<longrightarrow> dcg ! k"
    and ch: "dcg \<noteq> decoded_dc_groups s \<longrightarrow> decoded_dc_global s"
    using dc_groups_stage_effect(3) [OF assms(1)] by blast
  have ne: "dcg \<noteq> []" using len assms(2) by (auto simp: stage_order_def)
  have all: "False \<notin> set dcg" if "False \<notin> set (decoded_dc_groups s)"
    using that mono len by (metis in_set_conv_nth)
  show ?thesis
    using assms(2) ne all ch unfolding s' stage_order_def by auto
qed

lemma finalize_dc_stage_order:
  assumes "finalize_dc_stage env sections (s, l, st) = (r, (s', l', st'))" and "stage_order s"
  shows "stage_order s'"
proof (cases "min_element (decoded_dc_groups s) \<and> \<not> finalized_dc s")
  case False
  with assms show ?thesis by (auto simp: finalize_dc_stage_def)
next
  case True
  have ne: "decoded_dc_groups s \<noteq> []" using assms(2) by (simp add: stage_order_def)
  with True have all: "False \<notin> set (decoded_dc_groups s)" by (simp add: min_element_bool)
  have fin: "stage_order (FinalizeDC s)"
    using assms(2) all by (auto simp: stage_order_def FinalizeDC_def)
  have alloc: "stage_order x" if "AllocateOutput env (FinalizeDC s) = (a, x)" for a x
  proof -
    from AllocateOutput_state [OF that] have "x\<lparr>allocated := allocated (FinalizeDC s)\<rparr> = FinalizeDC s" .
    then have "stage_order (x\<lparr>allocated := allocated (FinalizeDC s)\<rparr>)" using fin by simp
    then show ?thesis by simp
  qed
  show ?thesis
    using assms True
    by (auto simp: finalize_dc_stage_def Let_def split: if_splits prod.splits dest: alloc)
qed

lemma ac_global_stage_order:
  assumes "ac_global_stage env sections (s, l, st) = (r, (s', l', st'))" and "stage_order s"
  shows "stage_order s'"
  using assms
  by (auto simp: ac_global_stage_def ProcessACGlobal_def Let_def stage_order_def
      split: if_splits)


lemma ProcessACGroup_effect:
  "ProcessACGroup env g readers n force_draw dc_only s = (r, s') \<Longrightarrow>
     \<exists>d. s' = s\<lparr>decoded_passes_per_ac_group := d\<rparr>
        \<and> length d = length (decoded_passes_per_ac_group s)
        \<and> (\<forall>k. k \<noteq> g \<longrightarrow> d ! k = decoded_passes_per_ac_group s ! k)"
proof -
  assume a: "ProcessACGroup env g readers n force_draw dc_only s = (r, s')"
  show ?thesis
  proof (cases "DecodeACGroup env g readers n force_draw dc_only = StatusOk")
    case True
    with a show ?thesis
      by (intro exI [of _ "(decoded_passes_per_ac_group s)
            [g := decoded_passes_per_ac_group s ! g + of_nat n]"])
         (auto simp: ProcessACGroup_def Let_def)
  next
    case False
    with a show ?thesis
      by (intro exI [of _ "decoded_passes_per_ac_group s"])
         (auto simp: ProcessACGroup_def Let_def)
  qed
qed

lemma ac_group_task_effect:
  assumes "ac_group_task env sections l g (a, e, s, st) = (a', e', s', st')"
  shows "\<exists>d. s' = s\<lparr>decoded_passes_per_ac_group := d\<rparr>
        \<and> length d = length (decoded_passes_per_ac_group s)
        \<and> (\<forall>k. k \<noteq> g \<longrightarrow> d ! k = decoded_passes_per_ac_group s ! k)"
proof -
  have triv: "\<exists>d. s = s\<lparr>decoded_passes_per_ac_group := d\<rparr>
        \<and> length d = length (decoded_passes_per_ac_group s)
        \<and> (\<forall>k. k \<noteq> g \<longrightarrow> d ! k = decoded_passes_per_ac_group s ! k)"
    by (intro exI [of _ "decoded_passes_per_ac_group s"]) simp
  show ?thesis
    using assms triv
    by (auto simp: ac_group_task_def Let_def split: if_splits prod.splits
        dest!: ProcessACGroup_effect)
qed

lemma fold_ac_group_task_effect:
  assumes "fold (ac_group_task env sections l) gs (a, e, s, st) = (a', e', s', st')"
  shows "\<exists>d. s' = s\<lparr>decoded_passes_per_ac_group := d\<rparr>
        \<and> length d = length (decoded_passes_per_ac_group s)
        \<and> (\<forall>k. k \<notin> set gs \<longrightarrow> d ! k = decoded_passes_per_ac_group s ! k)"
  using assms
proof (induction gs arbitrary: a e s st)
  case Nil
  then have "s' = s" by simp
  then show ?case by (intro exI [of _ "decoded_passes_per_ac_group s"]) simp
next
  case (Cons g gs)
  obtain a1 e1 s1 st1 where t: "ac_group_task env sections l g (a, e, s, st) = (a1, e1, s1, st1)"
    by (cases "ac_group_task env sections l g (a, e, s, st)")
  from ac_group_task_effect [OF t] obtain d1 where
    s1: "s1 = s\<lparr>decoded_passes_per_ac_group := d1\<rparr>"
    and l1: "length d1 = length (decoded_passes_per_ac_group s)"
    and k1: "\<forall>k. k \<noteq> g \<longrightarrow> d1 ! k = decoded_passes_per_ac_group s ! k" by blast
  from Cons.prems t have "fold (ac_group_task env sections l) gs (a1, e1, s1, st1) = (a', e', s', st')"
    by simp
  from Cons.IH [OF this] obtain d where
    s': "s' = s1\<lparr>decoded_passes_per_ac_group := d\<rparr>"
    and l2: "length d = length (decoded_passes_per_ac_group s1)"
    and k2: "\<forall>k. k \<notin> set gs \<longrightarrow> d ! k = decoded_passes_per_ac_group s1 ! k" by blast
  show ?case
    using s1 l1 k1 s' l2 k2 by (intro exI [of _ d]) simp
qed

lemma ac_groups_stage_effect:
  assumes "ac_groups_stage env sections (s, l, st) = (r, (s', l', st'))"
  shows "l' = l" and "r \<noteq> Some StatusOk"
    and "\<exists>d. s' = s\<lparr>decoded_passes_per_ac_group := d\<rparr>"
proof -
  show "l' = l" and "r \<noteq> Some StatusOk"
    using assms by (auto simp: ac_groups_stage_def split: if_splits prod.splits)
  show "\<exists>d. s' = s\<lparr>decoded_passes_per_ac_group := d\<rparr>"
  proof (cases "decoded_ac_global s")
    case True
    obtain a1 e1 s1 st1 where f: "fold (ac_group_task env sections l) [0..<length (ac_group_sec l)]
        (False, False, s, st) = (a1, e1, s1, st1)"
      by (cases "fold (ac_group_task env sections l) [0..<length (ac_group_sec l)]
            (False, False, s, st)")
    with assms True have "s' = s1"
      by (auto simp: ac_groups_stage_def split: if_splits)
    with fold_ac_group_task_effect [OF f] show ?thesis by auto
  next
    case False
    with assms have "s' = s"
      by (auto simp: ac_groups_stage_def split: if_splits)
    then show ?thesis by (intro exI [of _ "decoded_passes_per_ac_group s"]) simp
  qed
qed

lemma ac_groups_stage_order:
  assumes "ac_groups_stage env sections (s, l, st) = (r, (s', l', st'))" and "stage_order s"
  shows "stage_order s'"
  using ac_groups_stage_effect(3) [OF assms(1)] assms(2) by auto

lemma mark_stage_order:
  assumes "mark_stage sections (s, l, st) = (r, (s', l', st'))" and "stage_order s"
  shows "stage_order s'"
  using assms by (auto simp: mark_stage_def)

lemma classify_section_processed:
  assumes "classify_section sections i (s, l, st) = (r, (s', l', st'))"
  shows "\<exists>p. s' = s\<lparr>processed_section := p\<rparr> \<and> length p = length (processed_section s)
            \<and> (\<forall>k. processed_section s ! k \<longrightarrow> p ! k)"
proof -
  have triv: "\<exists>p. s = s\<lparr>processed_section := p\<rparr> \<and> length p = length (processed_section s)
            \<and> (\<forall>k. processed_section s ! k \<longrightarrow> p ! k)"
    by (intro exI [of _ "processed_section s"]) simp
  have upd: "\<exists>p. mark_processed sid s = s\<lparr>processed_section := p\<rparr>
            \<and> length p = length (processed_section s)
            \<and> (\<forall>k. processed_section s ! k \<longrightarrow> p ! k)" for sid
    by (intro exI [of _ "(processed_section s)[sid := True]"])
       (simp add: mark_processed_def nth_update_True)
  show ?thesis
    using assms triv upd
    by (auto simp: classify_section_def Let_def split: if_splits)
qed

lemma run_loop_classify_processed:
  assumes "run_loop (classify_section sections) is (s, l, st) = (r, (s', l', st'))"
  shows "\<exists>p. s' = s\<lparr>processed_section := p\<rparr> \<and> length p = length (processed_section s)
            \<and> (\<forall>k. processed_section s ! k \<longrightarrow> p ! k)"
  using assms
proof (induction "is" arbitrary: s l st)
  case Nil
  then have "s' = s" by simp
  then show ?case by (intro exI [of _ "processed_section s"]) simp
next
  case (Cons i "is")
  obtain r1 s1 l1 st1 where c: "classify_section sections i (s, l, st) = (r1, (s1, l1, st1))"
    by (cases "classify_section sections i (s, l, st)") auto
  from classify_section_processed [OF c] obtain p1 where
    s1: "s1 = s\<lparr>processed_section := p1\<rparr>" and len1: "length p1 = length (processed_section s)"
    and m1: "\<forall>k. processed_section s ! k \<longrightarrow> p1 ! k" by blast
  show ?case
  proof (cases r1)
    case None
    with Cons.prems c have "run_loop (classify_section sections) is (s1, l1, st1) = (r, (s', l', st'))"
      by simp
    from Cons.IH [OF this] obtain p where
      "s' = s1\<lparr>processed_section := p\<rparr>" "length p = length (processed_section s1)"
      "\<forall>k. processed_section s1 ! k \<longrightarrow> p ! k" by blast
    with s1 len1 m1 show ?thesis by (intro exI [of _ p]) simp
  next
    case (Some x)
    with Cons.prems c have "s' = s1" by simp
    with s1 len1 m1 show ?thesis by (intro exI [of _ p1]) simp
  qed
qed

lemma classify_stage_processed:
  assumes "classify_stage sections (s, l, st) = (r, (s', l', st'))"
  shows "\<exists>p. s' = s\<lparr>processed_section := p\<rparr> \<and> length p = length (processed_section s)
            \<and> (\<forall>k. processed_section s ! k \<longrightarrow> p ! k)"
proof (cases "single_section s")
  case True
  have triv: "\<exists>p. s = s\<lparr>processed_section := p\<rparr> \<and> length p = length (processed_section s)
            \<and> (\<forall>k. processed_section s ! k \<longrightarrow> p ! k)"
    by (intro exI [of _ "processed_section s"]) simp
  have upd: "\<exists>p. mark_processed 0 s = s\<lparr>processed_section := p\<rparr>
            \<and> length p = length (processed_section s)
            \<and> (\<forall>k. processed_section s ! k \<longrightarrow> p ! k)"
    by (intro exI [of _ "(processed_section s)[0 := True]"])
       (simp add: mark_processed_def nth_update_True)
  have "s' = s \<or> s' = mark_processed 0 s"
    using assms True by (auto simp: classify_stage_def Let_def split: if_splits)
  then show ?thesis using triv upd by blast
next
  case False
  obtain r1 s1 l1 st1 where c: "run_loop (classify_section sections) [0..<length sections] (s, l, st)
      = (r1, (s1, l1, st1))"
    by (cases "run_loop (classify_section sections) [0..<length sections] (s, l, st)") auto
  with assms False have "s' = s1"
    by (cases r1) (auto simp: classify_stage_def and_then_def)
  with run_loop_classify_processed [OF c] show ?thesis by simp
qed

lemma classify_stage_order:
  assumes "classify_stage sections (s, l, st) = (r, (s', l', st'))" and "stage_order s"
  shows "stage_order s'"
  using classify_stage_processed [OF assms(1)] assms(2) by auto

lemma ProcessSections_stage_order:
  assumes "ProcessSections env sections s = (r, st, s')" and "stage_order s"
  shows "stage_order s'"
proof (cases "length sections = 0")
  case True
  with assms show ?thesis by (simp add: ProcessSections_def)
next
  case False
  define F where "F = (\<lambda>(x::Status) (w::Work). stage_order (fst w))"
  define G where "G = (\<lambda>w::Work. stage_order (fst w))"
  define w0 where "w0 = (s, init_locals s (length sections), replicate (length sections) kSkipped)"
  define r0 where "r0 = classify_stage sections w0"
  define r1 where "r1 = and_then r0 (dc_global_stage env sections)"
  define r2 where "r2 = and_then r1 (dc_groups_stage env sections)"
  define r3 where "r3 = and_then r2 (finalize_dc_stage env sections)"
  define r4 where "r4 = and_then r3 (ac_global_stage env sections)"
  define r5 where "r5 = and_then r4 (ac_groups_stage env sections)"
  define r6 where "r6 = and_then r5 (mark_stage sections)"
  have stage: "case f w of (None, w') \<Rightarrow> G w' | (Some x, w') \<Rightarrow> F x w'"
    if "G w" and "\<And>s l st r s' l' st'. f (s, l, st) = (r, (s', l', st')) \<Longrightarrow> stage_order s
          \<Longrightarrow> stage_order s'" for f w
    using that
    by (cases w, cases "f w") (auto simp: F_def G_def split: option.splits)
  have 0: "case r0 of (None, w') \<Rightarrow> G w' | (Some x, w') \<Rightarrow> F x w'"
    unfolding r0_def
    by (rule stage) (auto simp: G_def w0_def assms(2) intro: classify_stage_order)
  have 1: "case r1 of (None, w') \<Rightarrow> G w' | (Some x, w') \<Rightarrow> F x w'"
    unfolding r1_def
    by (rule and_then_rule [OF 0], rule stage) (auto intro: dc_global_stage_order)
  have 2: "case r2 of (None, w') \<Rightarrow> G w' | (Some x, w') \<Rightarrow> F x w'"
    unfolding r2_def
    by (rule and_then_rule [OF 1], rule stage) (auto intro: dc_groups_stage_order)
  have 3: "case r3 of (None, w') \<Rightarrow> G w' | (Some x, w') \<Rightarrow> F x w'"
    unfolding r3_def
    by (rule and_then_rule [OF 2], rule stage) (auto intro: finalize_dc_stage_order)
  have 4: "case r4 of (None, w') \<Rightarrow> G w' | (Some x, w') \<Rightarrow> F x w'"
    unfolding r4_def
    by (rule and_then_rule [OF 3], rule stage) (auto intro: ac_global_stage_order)
  have 5: "case r5 of (None, w') \<Rightarrow> G w' | (Some x, w') \<Rightarrow> F x w'"
    unfolding r5_def
    by (rule and_then_rule [OF 4], rule stage) (auto intro: ac_groups_stage_order)
  have 6: "case r6 of (None, w') \<Rightarrow> G w' | (Some x, w') \<Rightarrow> F x w'"
    unfolding r6_def
    by (rule and_then_rule [OF 5], rule stage) (auto intro: mark_stage_order)
  have "ProcessSections env sections s =
      (case r6 of (Some status, (s', l, section_status)) \<Rightarrow> (status, section_status, s')
       | (None, (s', l, section_status)) \<Rightarrow> (StatusOk, section_status, s'))"
    using False
    by (simp add: ProcessSections_def Let_def r6_def r5_def r4_def r3_def r2_def r1_def r0_def w0_def)
  with assms(1) 6 show ?thesis
    by (auto simp: F_def G_def split: prod.splits option.splits)
qed

lemma InitFrame_output_cleared:
  assumes "InitFrame ienv is_preview allow_partial allow_partial_dc True s0 = (StatusOk, s)"
  shows "\<exists>x. s = clear_state x"
proof -
  obtain hst s1 where h: "InitFrame_header ienv is_preview allow_partial allow_partial_dc s0 = (hst, s1)"
    by (cases "InitFrame_header ienv is_preview allow_partial allow_partial_dc s0")
  with assms have "InitFrame_toc ienv True s1 = (StatusOk, s)"
    by (auto simp: InitFrame_def split: if_splits)
  then show ?thesis
    by (auto simp: InitFrame_toc_def Let_def split: if_splits prod.splits)
qed

lemma clear_state_stage_order:
  "0 < num_dc_groups (frame_dim (clear_state x)) \<Longrightarrow> stage_order (clear_state x)"
  by (simp add: clear_state_def stage_order_def)

lemma reachable_stage_order: "reachable s \<Longrightarrow> stage_order s"
proof (induction rule: reachable.induct)
  case (reachable_init ienv is_preview allow_partial allow_partial_dc s0 s)
  from InitFrame_output_cleared [OF reachable_init(1)] obtain x where "s = clear_state x" ..
  with reachable_init(2) show ?case by (simp add: clear_state_stage_order)
next
  case (reachable_max_passes s mp)
  then show ?case by (simp add: SetMaxPasses_def)
next
  case (reachable_sections s env sections st section_status s')
  from reachable_sections(2,3) show ?case by (rule ProcessSections_stage_order)
qed

lemma InitFrame_example:
  "InitFrame example_init_env False False False True finalized_frame = (StatusOk, fresh_frame)"
  by code_simp

lemma ProcessSections_example:
  "ProcessSections ok_env all_sections fresh_frame = (StatusOk, replicate 5 kDone, complete_frame)"
  by code_simp

lemma reachable_complete_frame: "reachable complete_frame"
proof -
  have "reachable fresh_frame"
    by (rule reachable_init [OF InitFrame_example]) (simp add: fresh_frame_def)
  then show ?thesis by (rule reachable_sections [OF _ ProcessSections_example])
qed

text \<open>
  C4. In every state of a frame (after \<^verbatim>\<open>InitFrame\<close>, any calls of \<^verbatim>\<open>SetMaxPasses\<close> and
  any calls of \<^verbatim>\<open>ProcessSections\<close>, also calls that fail): when the DC is finalised,
  DC-global and every DC group are decoded; when AC-global is decoded, the DC is finalised.
\<close>

theorem stage_flags_ordered:
  assumes "reachable s"
  shows "(finalized_dc s \<longrightarrow>
            decoded_dc_global s \<and> (\<forall>i<length (decoded_dc_groups s). decoded_dc_groups s ! i)) \<and>
         (decoded_ac_global s \<longrightarrow> finalized_dc s)"
proof -
  from assms have o: "stage_order s" by (rule reachable_stage_order)
  have "decoded_dc_global s \<and> (\<forall>i<length (decoded_dc_groups s). decoded_dc_groups s ! i)"
    if f: "finalized_dc s"
  proof -
    from o f have nf: "False \<notin> set (decoded_dc_groups s)" and ne: "decoded_dc_groups s \<noteq> []"
      by (simp_all add: stage_order_def)
    from nf have all: "\<forall>i<length (decoded_dc_groups s). decoded_dc_groups s ! i"
      by (metis nth_mem)
    from ne all have "True \<in> set (decoded_dc_groups s)"
      by (metis length_greater_0_conv nth_mem)
    with o all show ?thesis by (simp add: stage_order_def)
  qed
  with o show ?thesis by (simp add: stage_order_def)
qed

text \<open>
  The complete example frame is reached from \<^verbatim>\<open>InitFrame\<close> by one batch of all five
  sections; its DC is finalised and its AC-global is decoded.
\<close>

theorem stage_flags_ordered_witness:
  "reachable complete_frame \<and> finalized_dc complete_frame \<and> decoded_ac_global complete_frame \<and>
   decoded_dc_global complete_frame \<and> decoded_dc_groups complete_frame ! 0"
  using stage_flags_ordered [OF reachable_complete_frame] reachable_complete_frame
  by (simp add: example_defs)

subsection \<open>ProcessSections: the classification of the batch\<close>

lemma slots_simps [simp]:
  "slots (l\<lparr>num_ac_passes := x\<rparr>) = slots l"
  by (simp add: slots_def)

lemma slots_dc_global: "slots (l\<lparr>dc_global_sec := i\<rparr>) \<subseteq> insert i (slots l)"
  by (auto simp: slots_def)

lemma slots_ac_global: "slots (l\<lparr>ac_global_sec := i\<rparr>) \<subseteq> insert i (slots l)"
  by (auto simp: slots_def)

lemma slots_dc_group:
  "slots (l\<lparr>dc_group_sec := (dc_group_sec l)[n := i]\<rparr>) \<subseteq> insert i (slots l)"
  using set_update_subset_insert [of "dc_group_sec l" n i] by (auto simp: slots_def)

lemma set_nested_update:
  "(\<Union>row\<in>set (xss[g := (xss ! g)[p := i]]). set row) \<subseteq> insert i (\<Union>row\<in>set xss. set row)"
proof (cases "g < length xss")
  case True
  have "set (xss[g := (xss ! g)[p := i]]) \<subseteq> insert ((xss ! g)[p := i]) (set xss)"
    by (rule set_update_subset_insert)
  moreover have "set ((xss ! g)[p := i]) \<subseteq> insert i (set (xss ! g))"
    by (rule set_update_subset_insert)
  moreover have "xss ! g \<in> set xss" using True by simp
  ultimately show ?thesis by blast
next
  case False
  then show ?thesis by (auto simp: list_update_beyond)
qed

lemma slots_ac_group:
  "slots (l\<lparr>ac_group_sec := (ac_group_sec l)[g := (ac_group_sec l ! g)[p := i]]\<rparr>)
     \<subseteq> insert i (slots l)"
  using set_nested_update [of "ac_group_sec l" g p i] by (auto simp: slots_def)

lemma map_length_nested_update:
  "map length (xss[g := (xss ! g)[p := i]]) = map length xss"
  by (cases "g < length xss") (auto simp: map_update list_update_beyond list_update_same_conv)

lemma section_processed_mark:
  "section_processed (mark_processed sid s) k \<longleftrightarrow>
     (k = sid \<and> sid < length (processed_section s)) \<or> section_processed s k"
  by (cases "sid < length (processed_section s)")
     (auto simp: section_processed_def mark_processed_def nth_list_update list_update_beyond)

lemma beyond_max_passes_mark [simp]:
  "beyond_max_passes (mark_processed sid s) k = beyond_max_passes s k"
  by (simp add: beyond_max_passes_def mark_processed_def)

lemma classify_section_cases:
  assumes "classify_section sections i (s, l, st) = (r, (s', l', st'))"
  obtains
    (stop) "r \<noteq> None" "r \<noteq> Some StatusOk" "s' = s" "l' = l" "st' = st"
  | (duplicate) "r = None" "section_processed s (id_sec (sections ! i))"
      "s' = s" "l' = l" "st' = st[i := kDuplicate]"
  | (ignored) "r = None" "\<not> section_processed s (id_sec (sections ! i))"
      "beyond_max_passes s (id_sec (sections ! i))" "s' = s" "l' = l" "st' = st"
  | (scheduled) "r = None" "id_sec (sections ! i) < length (processed_section s)"
      "\<not> beyond_max_passes s (id_sec (sections ! i))"
      "s' = mark_processed (id_sec (sections ! i)) s" "st' = st"
      "slots l' \<subseteq> insert i (slots l)"
      "map length (ac_group_sec l') = map length (ac_group_sec l)"
      "length (dc_group_sec l') = length (dc_group_sec l)"
      "num_ac_passes l' = num_ac_passes l"
proof -
  define sid where "sid = id_sec (sections ! i)"
  define agi where "agi = num_dc_groups (frame_dim s) + 1"
  define acp where "acp = (sid - agi - 1) div num_groups (frame_dim s)"
  define acg where "acg = (sid - agi - 1) mod num_groups (frame_dim s)"
  note c = assms [unfolded classify_section_def Let_def prod.case, folded sid_def,
      folded agi_def, folded acp_def acg_def]
  consider (a) "\<not> sid < length (processed_section s)"
    | (b) "sid < length (processed_section s)" "processed_section s ! sid"
    | (c) "sid < length (processed_section s)" "\<not> processed_section s ! sid" "sid = 0"
    | (d) "sid < length (processed_section s)" "\<not> processed_section s ! sid" "sid \<noteq> 0" "sid < agi"
    | (e) "sid < length (processed_section s)" "\<not> processed_section s ! sid" "sid \<noteq> 0" "sid = agi"
    | (f) "sid < length (processed_section s)" "\<not> processed_section s ! sid" "sid \<noteq> 0" "agi < sid"
          "num_passes (passes (frame_header s)) \<le> acp"
    | (g) "sid < length (processed_section s)" "\<not> processed_section s ! sid" "sid \<noteq> 0" "agi < sid"
          "acp < num_passes (passes (frame_header s))" "max_passes s \<le> acp"
    | (h) "sid < length (processed_section s)" "\<not> processed_section s ! sid" "sid \<noteq> 0" "agi < sid"
          "acp < num_passes (passes (frame_header s))" "acp < max_passes s"
    by linarith
  then show ?thesis
  proof cases
    case a
    with c show ?thesis by (intro stop) auto
  next
    case b
    with c show ?thesis by (intro duplicate) (auto simp: section_processed_def sid_def)
  next
    case c': c
    with c have "r = None" "s' = mark_processed sid s" "st' = st" "l' = l\<lparr>dc_global_sec := i\<rparr>"
      by auto
    with c' show ?thesis
      by (intro scheduled)
         (simp_all add: sid_def [symmetric] beyond_max_passes_def slots_dc_global)
  next
    case d
    with c have "r = None" "s' = mark_processed sid s" "st' = st"
      "l' = l\<lparr>dc_group_sec := (dc_group_sec l)[sid - 1 := i]\<rparr>"
      by auto
    with d show ?thesis
      by (intro scheduled)
         (simp_all add: sid_def [symmetric] beyond_max_passes_def agi_def slots_dc_group)
  next
    case e
    with c have "r = None" "s' = mark_processed sid s" "st' = st" "l' = l\<lparr>ac_global_sec := i\<rparr>"
      by auto
    with e show ?thesis
      by (intro scheduled)
         (simp_all add: sid_def [symmetric] beyond_max_passes_def agi_def slots_ac_global)
  next
    case f
    with c show ?thesis by (intro stop) auto
  next
    case g
    with c have "r = None" "s' = s" "st' = st" "l' = l" by auto
    with g show ?thesis
      by (intro ignored)
         (auto simp: sid_def [symmetric] beyond_max_passes_def agi_def acp_def section_processed_def)
  next
    case h
    with c have "r = None" "s' = mark_processed sid s" "st' = st"
      "l' = l\<lparr>ac_group_sec := (ac_group_sec l)[acg := (ac_group_sec l ! acg)[acp := i]]\<rparr>"
      by auto
    with h show ?thesis
      by (intro scheduled)
         (simp_all add: sid_def [symmetric] beyond_max_passes_def agi_def acp_def
            map_length_nested_update slots_ac_group)
  qed
qed


lemma run_loop_rule:
  assumes "run_loop body is w = (r, w')" and "I w"
    and "\<And>i w r w'. I w \<Longrightarrow> body i w = (r, w') \<Longrightarrow> I w'"
  shows "I w'"
  using assms(1,2)
proof (induction "is" arbitrary: w)
  case Nil
  then show ?case by simp
next
  case (Cons i "is")
  obtain r1 w1 where b: "body i w = (r1, w1)" by (cases "body i w")
  have i1: "I w1" by (rule assms(3) [OF Cons.prems(2) b])
  show ?case
  proof (cases r1)
    case None
    with Cons.prems(1) b have "run_loop body is w1 = (r, w')" by simp
    then show ?thesis using i1 by (rule Cons.IH)
  next
    case (Some x)
    with Cons.prems(1) b have "w' = w1" by simp
    with i1 show ?thesis by simp
  qed
qed

lemma run_loop_status:
  assumes "run_loop body is w = (r, w')"
    and "\<And>i w r w'. body i w = (r, w') \<Longrightarrow> r \<noteq> Some StatusOk"
  shows "r \<noteq> Some StatusOk"
  using assms(1)
proof (induction "is" arbitrary: w)
  case Nil
  then show ?case by simp
next
  case (Cons i "is")
  obtain r1 w1 where b: "body i w = (r1, w1)" by (cases "body i w")
  show ?case
  proof (cases r1)
    case None
    with Cons.prems(1) b have "run_loop body is w1 = (r, w')" by simp
    then show ?thesis by (rule Cons.IH)
  next
    case (Some x)
    with Cons.prems(1) b have "r = r1" by simp
    with assms(2) [OF b] show ?thesis by simp
  qed
qed

lemma same_but_processed:
  assumes "s\<lparr>processed_section := processed_section s0\<rparr> = s0"
  shows "frame_dim s = frame_dim s0" "max_passes s = max_passes s0"
    "frame_header s = frame_header s0"
    "decoded_passes_per_ac_group s = decoded_passes_per_ac_group s0"
    "beyond_max_passes s = beyond_max_passes s0"
proof -
  show a: "frame_dim s = frame_dim s0"
    using assms by (drule_tac arg_cong [where f = frame_dim]) simp
  show b: "max_passes s = max_passes s0"
    using assms by (drule_tac arg_cong [where f = max_passes]) simp
  show "frame_header s = frame_header s0"
    using assms by (drule_tac arg_cong [where f = frame_header]) simp
  show "decoded_passes_per_ac_group s = decoded_passes_per_ac_group s0"
    using assms by (drule_tac arg_cong [where f = decoded_passes_per_ac_group]) simp
  show "beyond_max_passes s = beyond_max_passes s0"
    using a b by (simp add: beyond_max_passes_def fun_eq_iff)
qed

lemma classify_section_classified:
  assumes c: "classify_section sections i (s, l, st) = (r, (s', l', st'))"
    and k: "classified sections s0 l0 (s, l, st)"
  shows "classified sections s0 l0 (s', l', st')"
proof -
  from k have acc: "accounted sections (s, l, st)"
    and kept: "\<forall>k. beyond_max_passes s0 k \<longrightarrow> section_processed s k = section_processed s0 k"
    and same: "s\<lparr>processed_section := processed_section s0\<rparr> = s0"
    and len: "length (processed_section s) = length (processed_section s0)"
    and rows: "map length (ac_group_sec l) = map length (ac_group_sec l0)"
    and nap: "num_ac_passes l = num_ac_passes l0"
    by (simp_all add: classified_def tracked_def)
  from acc have lst: "length st = length sections"
    and each: "\<And>j. j < length sections \<Longrightarrow>
        section_processed s (id_sec (sections ! j)) \<or> (st ! j = kSkipped \<and> j \<notin> slots l)"
    by (simp_all add: accounted_def)
  note b = same_but_processed(5) [OF same]
  from c show ?thesis
  proof (cases rule: classify_section_cases)
    case stop
    with k show ?thesis by simp
  next
    case duplicate
    have "accounted sections (s, l, st[i := kDuplicate])"
      unfolding accounted_def prod.case
    proof (intro conjI allI impI)
      show "length (st[i := kDuplicate]) = length sections" using lst by simp
    next
      fix j assume j: "j < length sections"
      show "section_processed s (id_sec (sections ! j))
            \<or> (st[i := kDuplicate] ! j = kSkipped \<and> j \<notin> slots l)"
      proof (cases "j = i")
        case True
        with duplicate(2) show ?thesis by simp
      next
        case False
        with each [OF j] show ?thesis by simp
      qed
    qed
    with duplicate kept same len rows nap show ?thesis
      by (simp add: classified_def tracked_def)
  next
    case ignored
    with k show ?thesis by simp
  next
    case scheduled
    define sid where "sid = id_sec (sections ! i)"
    have s': "s' = mark_processed sid s" using scheduled(4) by (simp add: sid_def)
    have "accounted sections (s', l', st)"
      unfolding accounted_def prod.case
    proof (intro conjI allI impI)
      show "length st = length sections" by (rule lst)
    next
      fix j assume j: "j < length sections"
      show "section_processed s' (id_sec (sections ! j)) \<or> (st ! j = kSkipped \<and> j \<notin> slots l')"
      proof (cases "id_sec (sections ! j) = sid")
        case True
        with scheduled(2) show ?thesis by (simp add: s' section_processed_mark sid_def)
      next
        case False
        then have "j \<noteq> i" by (auto simp: sid_def)
        with each [OF j] scheduled(6) show ?thesis
          by (auto simp: s' section_processed_mark)
      qed
    qed
    moreover have "\<forall>k. beyond_max_passes s0 k \<longrightarrow> section_processed s' k = section_processed s0 k"
    proof (intro allI impI)
      fix k assume bk: "beyond_max_passes s0 k"
      with scheduled(3) b have "k \<noteq> sid" by (auto simp: sid_def)
      with kept bk show "section_processed s' k = section_processed s0 k"
        by (simp add: s' section_processed_mark)
    qed
    moreover have "s'\<lparr>processed_section := processed_section s0\<rparr> = s0"
      using same by (simp add: s' mark_processed_def)
    moreover have "length (processed_section s') = length (processed_section s0)"
      using len by (simp add: s' mark_processed_def)
    ultimately show ?thesis
      using scheduled(5,7,9) rows nap by (simp add: classified_def tracked_def)
  qed
qed

lemma classify_section_status:
  "classify_section sections i w = (r, w') \<Longrightarrow> r \<noteq> Some StatusOk"
  by (cases w, cases w') (auto elim!: classify_section_cases)


lemma count_new_passes_range:
  "k < count_new_passes secs d mp num j \<Longrightarrow> j \<le> k \<Longrightarrow> k + d < mp"
proof (induction secs d mp num j rule: count_new_passes.induct)
  case (1 secs decoded mp num j)
  show ?case
  proof (cases "j + decoded < mp")
    case False
    with "1.prems" show ?thesis by (simp add: count_new_passes.simps [of secs decoded mp num j])
  next
    case True
    note lt = this
    show ?thesis
    proof (cases "secs ! (j + decoded) = num")
      case True
      with lt "1.prems" show ?thesis
        by (simp add: count_new_passes.simps [of secs decoded mp num j])
    next
      case False
      with lt "1.prems" have k: "k < count_new_passes secs decoded mp num (j + 1)"
        by (simp add: count_new_passes.simps [of secs decoded mp num j])
      show ?thesis
      proof (cases "k = j")
        case True
        with lt show ?thesis by simp
      next
        case False
        with "1.prems"(2) have "j + 1 \<le> k" by simp
        from "1.IH" [OF lt \<open>secs ! (j + decoded) \<noteq> num\<close> k this] show ?thesis .
      qed
    qed
  qed
qed

lemma slots_init_locals: "slots (init_locals s num) \<subseteq> {num}"
  by (auto simp: slots_def init_locals_def)

lemma classified_init:
  "classified sections s0 (init_locals s0 (length sections))
     (s0, init_locals s0 (length sections), replicate (length sections) kSkipped)"
  using slots_init_locals [of s0 "length sections"]
  by (auto simp: classified_def tracked_def accounted_def)

lemma passes_in_range_init:
  assumes "map length (ac_group_sec l) = map length (ac_group_sec (init_locals s0 num))"
    and "num_ac_passes l = num_ac_passes (init_locals s0 num)"
  shows "passes_in_range s l"
proof -
  from assms(1) have "length (ac_group_sec l) = num_groups (frame_dim s0)"
    by (drule_tac arg_cong [where f = length]) (simp add: init_locals_def)
  with assms(2) show ?thesis
    by (simp add: passes_in_range_def init_locals_def)
qed

lemma classify_stage_ready:
  assumes c: "classify_stage sections
                (s0, init_locals s0 (length sections), replicate (length sections) kSkipped)
              = (r, (s, l, st))"
    and mp: "max_passes s0 \<le> num_passes (passes (frame_header s0))"
    and ne: "single_section s0 \<longrightarrow> processed_section s0 \<noteq> []"
  shows "ready sections s0 (s, l, st)" and "r \<noteq> Some StatusOk"
    and "s\<lparr>processed_section := processed_section s0\<rparr> = s0"
proof -
  define l0 where "l0 = init_locals s0 (length sections)"
  define st0 where "st0 = replicate (length sections) kSkipped"
  note c' = c [folded l0_def st0_def]
  have init: "classified sections s0 l0 (s0, l0, st0)"
    unfolding l0_def st0_def by (rule classified_init)
  have "ready sections s0 (s, l, st) \<and> r \<noteq> Some StatusOk
        \<and> s\<lparr>processed_section := processed_section s0\<rparr> = s0"
  proof (cases "single_section s0")
    case False
    obtain r1 s1 l1 st1 where loop: "run_loop (classify_section sections) [0..<length sections]
        (s0, l0, st0) = (r1, (s1, l1, st1))"
      by (cases "run_loop (classify_section sections) [0..<length sections] (s0, l0, st0)") auto
    have cl: "classified sections s0 l0 (s1, l1, st1)"
      by (rule run_loop_rule [where I = "classified sections s0 l0", OF loop init])
         (auto intro: classify_section_classified)
    have r1: "r1 \<noteq> Some StatusOk"
      by (rule run_loop_status [OF loop]) (rule classify_section_status)
    from cl have tr: "tracked sections s0 (s1, l1, st1)"
      and same: "s1\<lparr>processed_section := processed_section s0\<rparr> = s0"
      and rows: "map length (ac_group_sec l1) = map length (ac_group_sec l0)"
      and nap: "num_ac_passes l1 = num_ac_passes l0"
      by (simp_all add: classified_def)
    show ?thesis
    proof (cases r1)
      case (Some x)
      with c' False loop have "r = r1" "s = s1" "l = l1" "st = st1"
        by (auto simp: classify_stage_def and_then_def)
      with tr same r1 passes_in_range_init [OF rows [unfolded l0_def] nap [unfolded l0_def]]
      show ?thesis by (simp add: ready_def)
    next
      case None
      define cnt where "cnt = map (\<lambda>g. count_new_passes (ac_group_sec l1 ! g)
                                 (unat (decoded_passes_per_ac_group s1 ! g))
                                 (max_passes s1) (length sections) 0)
                        [0..<length (ac_group_sec l1)]"
      from c' False loop None have res: "r = None" "s = s1" "l = l1\<lparr>num_ac_passes := cnt\<rparr>" "st = st1"
        by (auto simp: classify_stage_def and_then_def cnt_def)
      have tr': "tracked sections s0 (s1, l1\<lparr>num_ac_passes := cnt\<rparr>, st1)"
        using tr by (simp add: tracked_def accounted_def)
      have rowlen: "length (ac_group_sec l1 ! g) = num_passes (passes (frame_header s0))"
        if "g < length (ac_group_sec l1)" for g
      proof -
        from rows have "length (ac_group_sec l1) = length (ac_group_sec l0)"
          by (drule_tac arg_cong [where f = length]) simp
        with that have g0: "g < num_groups (frame_dim s0)" by (simp add: l0_def init_locals_def)
        from rows have "map length (ac_group_sec l1) ! g = map length (ac_group_sec l0) ! g" by simp
        with that g0 show ?thesis by (simp add: l0_def init_locals_def)
      qed
      have "passes_in_range s1 (l1\<lparr>num_ac_passes := cnt\<rparr>)"
        unfolding passes_in_range_def
      proof (intro allI impI)
        fix g k
        assume g: "g < length (ac_group_sec (l1\<lparr>num_ac_passes := cnt\<rparr>))"
          and k: "k < num_ac_passes (l1\<lparr>num_ac_passes := cnt\<rparr>) ! g"
        from g have g': "g < length (ac_group_sec l1)" by simp
        with k have "k < count_new_passes (ac_group_sec l1 ! g)
                           (unat (decoded_passes_per_ac_group s1 ! g))
                           (max_passes s1) (length sections) 0"
          by (simp add: cnt_def)
        then have "k + unat (decoded_passes_per_ac_group s1 ! g) < max_passes s1"
          by (rule count_new_passes_range) simp
        with mp same_but_processed(2,3) [OF same] rowlen [OF g']
        show "unat (decoded_passes_per_ac_group s1 ! g) + k
              < length (ac_group_sec (l1\<lparr>num_ac_passes := cnt\<rparr>) ! g)"
          by simp
      qed
      with tr' same res show ?thesis by (simp add: ready_def)
    qed
  next
    case True
    with ne have pne: "processed_section s0 \<noteq> []" by simp
    have beyond0: "\<not> beyond_max_passes s0 0" by (simp add: beyond_max_passes_def)
    from init have tr0: "tracked sections s0 (s0, l0, st0)" by (simp add: classified_def)
    have pir0: "passes_in_range s0 l0"
      unfolding l0_def by (rule passes_in_range_init) simp_all
    consider (abort) "length sections \<noteq> 1 \<or> id_sec (sections ! 0) \<noteq> 0"
      | (fresh) "length sections = 1" "id_sec (sections ! 0) = 0" "\<not> processed_section s0 ! 0"
      | (dup) "length sections = 1" "id_sec (sections ! 0) = 0" "processed_section s0 ! 0"
      by blast
    then show ?thesis
    proof cases
      case abort
      with c' True have "r = Some JXL_ABORT" "s = s0" "l = l0" "st = st0"
        by (auto simp: classify_stage_def split: if_splits)
      with tr0 pir0 show ?thesis by (simp add: ready_def)
    next
      case fresh
      with c' True have res: "r = None" "s = mark_processed 0 s0" "st = st0"
        by (auto simp: classify_stage_def Let_def split: if_splits)
      have all: "all_processed sections s"
        using fresh pne by (simp add: all_processed_def res section_processed_mark)
      have "accounted sections (s, l, st)"
        using all fresh by (simp add: accounted_def all_processed_def res st0_def)
      moreover have "\<forall>k. beyond_max_passes s0 k \<longrightarrow> section_processed s k = section_processed s0 k"
        using beyond0 by (auto simp: res section_processed_mark)
      ultimately show ?thesis
        using all res by (simp add: ready_def tracked_def mark_processed_def)
    next
      case dup
      with c' True have res: "r = None" "s = s0" "st = st0[0 := kDuplicate]"
        by (auto simp: classify_stage_def Let_def split: if_splits)
      have all: "all_processed sections s"
        using dup pne by (simp add: all_processed_def res section_processed_def)
      have "accounted sections (s, l, st)"
        using all dup by (simp add: accounted_def all_processed_def res st0_def)
      with all res show ?thesis by (simp add: ready_def tracked_def)
    qed
  qed
  then show "ready sections s0 (s, l, st)" and "r \<noteq> Some StatusOk"
    and "s\<lparr>processed_section := processed_section s0\<rparr> = s0" by simp_all
qed

subsection \<open>ProcessSections: the stages after the classification\<close>


lemma section_processed_cong:
  "processed_section s' = processed_section s \<Longrightarrow> section_processed s' = section_processed s"
  by (simp add: section_processed_def fun_eq_iff)

lemma all_processed_cong:
  "processed_section s' = processed_section s \<Longrightarrow>
     all_processed sections s' = all_processed sections s"
  using section_processed_cong [of s' s] by (simp add: all_processed_def)

lemma passes_in_range_cong:
  "decoded_passes_per_ac_group s' = decoded_passes_per_ac_group s \<Longrightarrow>
     passes_in_range s' l = passes_in_range s l"
  by (simp add: passes_in_range_def)

lemma tracked_local:
  assumes "tracked sections s0 (s, l, st)"
    and "processed_section s' = processed_section s"
    and "length st' = length st"
    and "\<And>i. i \<notin> slots l \<Longrightarrow> st' ! i = st ! i"
  shows "tracked sections s0 (s', l, st')"
proof -
  note sp = section_processed_cong [OF assms(2)]
  from assms(1) have len: "length st = length sections"
    and each: "\<And>i. i < length sections \<Longrightarrow>
        section_processed s (id_sec (sections ! i)) \<or> (st ! i = kSkipped \<and> i \<notin> slots l)"
    and kept: "\<forall>k. beyond_max_passes s0 k \<longrightarrow> section_processed s k = section_processed s0 k"
    by (simp_all add: tracked_def accounted_def)
  have "section_processed s' (id_sec (sections ! i)) \<or> (st' ! i = kSkipped \<and> i \<notin> slots l)"
    if "i < length sections" for i
    using each [OF that] assms(4) [of i] by (auto simp: sp)
  with len kept assms(3) show ?thesis
    by (simp add: tracked_def accounted_def sp)
qed

lemma tracked_all_processed:
  assumes "tracked sections s0 (s, l, st)" and "all_processed sections s"
    and "processed_section s' = processed_section s"
    and "length st' = length st"
  shows "tracked sections s0 (s', l, st')"
proof -
  note sp = section_processed_cong [OF assms(3)]
  from assms(1) have len: "length st = length sections"
    and kept: "\<forall>k. beyond_max_passes s0 k \<longrightarrow> section_processed s k = section_processed s0 k"
    by (simp_all add: tracked_def accounted_def)
  from assms(2) have "section_processed s' (id_sec (sections ! i))" if "i < length sections" for i
    using that by (simp add: all_processed_def sp)
  with len kept assms(4) show ?thesis
    by (simp add: tracked_def accounted_def sp)
qed

lemma ready_local:
  assumes "ready sections s0 (s, l, st)"
    and "processed_section s' = processed_section s"
    and "decoded_passes_per_ac_group s' = decoded_passes_per_ac_group s"
    and "length st' = length st"
    and "\<And>i. i \<notin> slots l \<Longrightarrow> st' ! i = st ! i"
  shows "ready sections s0 (s', l, st')"
proof -
  from assms(1) have tr: "tracked sections s0 (s, l, st)"
    and rg: "passes_in_range s l \<or> all_processed sections s"
    by (simp_all add: ready_def)
  from tr assms(2,4,5) have "tracked sections s0 (s', l, st')" by (rule tracked_local)
  with rg show ?thesis
    by (simp add: ready_def passes_in_range_cong [OF assms(3)] all_processed_cong [OF assms(2)])
qed

lemma slots_members:
  "dc_global_sec l \<in> slots l" "ac_global_sec l \<in> slots l"
  "k < length (dc_group_sec l) \<Longrightarrow> dc_group_sec l ! k \<in> slots l"
  "g < length (ac_group_sec l) \<Longrightarrow> p < length (ac_group_sec l ! g)
     \<Longrightarrow> ac_group_sec l ! g ! p \<in> slots l"
  by (auto simp: slots_def intro: nth_mem)

lemma update_other_slot: "x \<in> slots l \<Longrightarrow> i \<notin> slots l \<Longrightarrow> st[x := v] ! i = st ! i"
  by (cases "x = i") auto

lemma dc_global_stage_ready:
  assumes c: "dc_global_stage env sections (s, l, st) = (r, (s', l', st'))"
    and k: "ready sections s0 (s, l, st)"
  shows "ready sections s0 (s', l', st')" and "r \<noteq> Some StatusOk"
proof -
  note e = dc_global_stage_effect [OF c]
  from e(2) have p: "processed_section s' = processed_section s"
    and d: "decoded_passes_per_ac_group s' = decoded_passes_per_ac_group s" by auto
  from e(3) have len: "length st' = length st" by auto
  have loc: "st' ! i = st ! i" if "i \<notin> slots l" for i
    using e(3) update_other_slot [OF slots_members(1) that] by auto
  have "ready sections s0 (s', l, st')"
    using k p d len loc by (rule ready_local)
  then show "ready sections s0 (s', l', st')" by (simp add: e(1))
  show "r \<noteq> Some StatusOk" by (rule e(4))
qed

lemma fold_dc_group_task_status:
  assumes "fold (dc_group_task env sections l) gs (e, s, st) = (e', s', st')"
    and "\<forall>g\<in>set gs. g < length (dc_group_sec l)"
  shows "length st' = length st \<and> (\<forall>i. i \<notin> slots l \<longrightarrow> st' ! i = st ! i)"
  using assms
proof (induction gs arbitrary: e s st)
  case Nil
  then show ?case by simp
next
  case (Cons g gs)
  obtain e1 s1 st1 where t: "dc_group_task env sections l g (e, s, st) = (e1, s1, st1)"
    by (cases "dc_group_task env sections l g (e, s, st)")
  from Cons.prems(2) have "dc_group_sec l ! g \<in> slots l" by (simp add: slots_members)
  with dc_group_task_effect(2) [OF t]
  have 1: "length st1 = length st \<and> (\<forall>i. i \<notin> slots l \<longrightarrow> st1 ! i = st ! i)"
    by (auto simp: update_other_slot)
  from Cons.prems t have "fold (dc_group_task env sections l) gs (e1, s1, st1) = (e', s', st')"
    by simp
  from Cons.IH [OF this] Cons.prems(2) 1 show ?case by simp
qed

lemma dc_groups_stage_ready:
  assumes c: "dc_groups_stage env sections (s, l, st) = (r, (s', l', st'))"
    and k: "ready sections s0 (s, l, st)"
  shows "ready sections s0 (s', l', st')" and "r \<noteq> Some StatusOk"
proof -
  note e = dc_groups_stage_effect [OF c]
  from e(3) have p: "processed_section s' = processed_section s"
    and d: "decoded_passes_per_ac_group s' = decoded_passes_per_ac_group s" by auto
  have st: "length st' = length st \<and> (\<forall>i. i \<notin> slots l \<longrightarrow> st' ! i = st ! i)"
  proof (cases "decoded_dc_global s")
    case True
    obtain e1 s1 st1 where f: "fold (dc_group_task env sections l) [0..<length (dc_group_sec l)]
        (False, s, st) = (e1, s1, st1)"
      by (cases "fold (dc_group_task env sections l) [0..<length (dc_group_sec l)] (False, s, st)")
    with c True have "st' = st1"
      by (auto simp: dc_groups_stage_def split: if_splits)
    with fold_dc_group_task_status [OF f] show ?thesis by simp
  next
    case False
    with c have "st' = st" by (auto simp: dc_groups_stage_def split: if_splits)
    then show ?thesis by simp
  qed
  have "ready sections s0 (s', l, st')"
  proof (rule ready_local [OF k p d])
    show "length st' = length st" using st by simp
    show "\<And>i. i \<notin> slots l \<Longrightarrow> st' ! i = st ! i" using st by simp
  qed
  then show "ready sections s0 (s', l', st')" by (simp add: e(1))
  show "r \<noteq> Some StatusOk" by (rule e(2))
qed


lemma AllocateOutput_fields:
  assumes "AllocateOutput env s = (a, x)"
  shows "processed_section x = processed_section s"
    "decoded_passes_per_ac_group x = decoded_passes_per_ac_group s"
    "finalized_dc x = finalized_dc s" "decoded_dc_groups x = decoded_dc_groups s"
  using assms by (auto simp: AllocateOutput_def Let_def split: if_splits)

lemma dc_settled_cong:
  "decoded_dc_groups s' = decoded_dc_groups s \<Longrightarrow> finalized_dc s' = finalized_dc s \<Longrightarrow>
     dc_settled s' = dc_settled s"
  by (simp add: dc_settled_def)

lemma finalize_dc_stage_effect:
  assumes c: "finalize_dc_stage env sections (s, l, st) = (r, (s', l', st'))"
  shows "l' = l" and "st' = st"
    and "r \<noteq> Some StatusOk \<Longrightarrow>
           processed_section s' = processed_section s \<and>
           decoded_passes_per_ac_group s' = decoded_passes_per_ac_group s \<and>
           (r = None \<longrightarrow> dc_settled s')"
    and "r = Some StatusOk \<Longrightarrow>
           \<exists>s''. s' = MarkSections sections st s'' \<and>
                 processed_section s'' = processed_section s \<and>
                 decoded_passes_per_ac_group s'' = decoded_passes_per_ac_group s \<and>
                 dc_settled s''"
proof -
  show "l' = l" and "st' = st"
    using c by (auto simp: finalize_dc_stage_def Let_def split: if_splits prod.splits)
  obtain a x where alloc: "AllocateOutput env (FinalizeDC s) = (a, x)"
    by (cases "AllocateOutput env (FinalizeDC s)")
  note f = AllocateOutput_fields [OF alloc]
  have px: "processed_section x = processed_section s"
    and dx: "decoded_passes_per_ac_group x = decoded_passes_per_ac_group s"
    and sx: "dc_settled x"
    using f by (simp_all add: FinalizeDC_def dc_settled_def)
  show "processed_section s' = processed_section s \<and>
        decoded_passes_per_ac_group s' = decoded_passes_per_ac_group s \<and>
        (r = None \<longrightarrow> dc_settled s')" if "r \<noteq> Some StatusOk"
    using c that alloc px dx sx
    by (auto simp: finalize_dc_stage_def Let_def dc_settled_def split: if_splits)
  show "\<exists>s''. s' = MarkSections sections st s'' \<and>
              processed_section s'' = processed_section s \<and>
              decoded_passes_per_ac_group s'' = decoded_passes_per_ac_group s \<and>
              dc_settled s''" if "r = Some StatusOk"
  proof -
    from c that alloc have "s' = MarkSections sections st x"
      by (auto simp: finalize_dc_stage_def Let_def split: if_splits)
    with px dx sx show ?thesis by blast
  qed
qed

lemma finalize_dc_stage_ready:
  assumes c: "finalize_dc_stage env sections (s, l, st) = (r, (s', l', st'))"
    and k: "ready sections s0 (s, l, st)"
  shows "case r of None \<Rightarrow> ready sections s0 (s', l', st') \<and> dc_settled s'
         | Some x \<Rightarrow> finished sections s0 x (s', l', st')"
proof -
  note e = finalize_dc_stage_effect [OF c]
  from k have tr: "tracked sections s0 (s, l, st)" by (simp add: ready_def)
  show ?thesis
  proof (cases "r = Some StatusOk")
    case True
    from e(4) [OF True] obtain s'' where s': "s' = MarkSections sections st s''"
      and p: "processed_section s'' = processed_section s"
      and d: "decoded_passes_per_ac_group s'' = decoded_passes_per_ac_group s"
      and settled: "dc_settled s''" by blast
    from tr p have "tracked sections s0 (s'', l, st)" by (rule tracked_local) simp_all
    with s' settled True show ?thesis
      by (auto simp: finished_def e(1,2))
  next
    case False
    from e(3) [OF False] have p: "processed_section s' = processed_section s"
      and d: "decoded_passes_per_ac_group s' = decoded_passes_per_ac_group s"
      and settled: "r = None \<longrightarrow> dc_settled s'" by simp_all
    from k p d have rd: "ready sections s0 (s', l, st)" by (rule ready_local) simp_all
    then have "tracked sections s0 (s', l, st)" by (simp add: ready_def)
    with rd settled False show ?thesis
      by (cases r) (auto simp: finished_def e(1,2))
  qed
qed

lemma ac_global_stage_effect:
  assumes "ac_global_stage env sections (s, l, st) = (r, (s', l', st'))"
  shows "l' = l" and "s' = s \<or> s' = s\<lparr>decoded_ac_global := True\<rparr>"
    and "st' = st \<or> st' = st[ac_global_sec l := kDone]"
    and "r \<noteq> Some StatusOk"
  using assms
  by (auto simp: ac_global_stage_def ProcessACGlobal_def Let_def split: if_splits)

lemma ac_global_stage_ready:
  assumes c: "ac_global_stage env sections (s, l, st) = (r, (s', l', st'))"
    and k: "ready sections s0 (s, l, st)" and settled: "dc_settled s"
  shows "ready sections s0 (s', l', st')" and "dc_settled s'" and "r \<noteq> Some StatusOk"
proof -
  note e = ac_global_stage_effect [OF c]
  from e(2) have p: "processed_section s' = processed_section s"
    and d: "decoded_passes_per_ac_group s' = decoded_passes_per_ac_group s" by auto
  from e(3) have len: "length st' = length st" by auto
  have loc: "st' ! i = st ! i" if "i \<notin> slots l" for i
    using e(3) update_other_slot [OF slots_members(2) that] by auto
  have "ready sections s0 (s', l, st')"
    using k p d len loc by (rule ready_local)
  then show "ready sections s0 (s', l', st')" by (simp add: e(1))
  from e(2) settled show "dc_settled s'" by (auto simp: dc_settled_def)
  show "r \<noteq> Some StatusOk" by (rule e(4))
qed

lemma fold_update_length [simp]:
  "length (fold (\<lambda>k st. st[k := x]) ks st) = length st"
  by (induction ks arbitrary: st) auto

lemma fold_update_other:
  "i \<notin> set ks \<Longrightarrow> fold (\<lambda>k st. st[k := x]) ks st ! i = st ! i"
  by (induction ks arbitrary: st) auto

lemma ac_group_task_status:
  assumes t: "ac_group_task env sections l g (a, e, s, st) = (a', e', s', st')"
  shows "length st' = length st"
    and "g < length (ac_group_sec l) \<Longrightarrow>
         \<forall>k<num_ac_passes l ! g.
            unat (decoded_passes_per_ac_group s ! g) + k < length (ac_group_sec l ! g) \<Longrightarrow>
         i \<notin> slots l \<Longrightarrow> st' ! i = st ! i"
proof -
  define secs where "secs = map (\<lambda>i. ac_group_sec l ! g ! (unat (decoded_passes_per_ac_group s ! g) + i))
      [0..<num_ac_passes l ! g]"
  have shape: "st' = st \<or> st' = fold (\<lambda>k st. st[k := kDone]) secs st"
    using t
    by (auto simp: ac_group_task_def Let_def secs_def split: if_splits prod.splits)
  then show "length st' = length st" by auto
  assume g: "g < length (ac_group_sec l)"
    and rg: "\<forall>k<num_ac_passes l ! g.
            unat (decoded_passes_per_ac_group s ! g) + k < length (ac_group_sec l ! g)"
    and i: "i \<notin> slots l"
  have "set secs \<subseteq> slots l"
    using g rg by (auto simp: secs_def intro: slots_members(4))
  with i have "i \<notin> set secs" by auto
  with shape show "st' ! i = st ! i" by (auto simp: fold_update_other)
qed

lemma fold_ac_group_task_length:
  "fold (ac_group_task env sections l) gs (a, e, s, st) = (a', e', s', st')
   \<Longrightarrow> length st' = length st"
proof (induction gs arbitrary: a e s st)
  case Nil
  then show ?case by simp
next
  case (Cons g gs)
  obtain a1 e1 s1 st1 where t: "ac_group_task env sections l g (a, e, s, st) = (a1, e1, s1, st1)"
    by (cases "ac_group_task env sections l g (a, e, s, st)")
  from Cons.prems t have "fold (ac_group_task env sections l) gs (a1, e1, s1, st1) = (a', e', s', st')"
    by simp
  from Cons.IH [OF this] ac_group_task_status(1) [OF t] show ?case by simp
qed

lemma fold_ac_group_task_status:
  assumes "fold (ac_group_task env sections l) gs (a, e, s, st) = (a', e', s', st')"
    and "distinct gs"
    and "\<forall>g\<in>set gs. g < length (ac_group_sec l) \<and>
           (\<forall>k<num_ac_passes l ! g.
              unat (decoded_passes_per_ac_group s ! g) + k < length (ac_group_sec l ! g))"
    and "i \<notin> slots l"
  shows "st' ! i = st ! i"
  using assms(1,2,3)
proof (induction gs arbitrary: a e s st)
  case Nil
  then show ?case by simp
next
  case (Cons g gs)
  obtain a1 e1 s1 st1 where t: "ac_group_task env sections l g (a, e, s, st) = (a1, e1, s1, st1)"
    by (cases "ac_group_task env sections l g (a, e, s, st)")
  from Cons.prems(3) have g: "g < length (ac_group_sec l)"
    and rg: "\<forall>k<num_ac_passes l ! g.
            unat (decoded_passes_per_ac_group s ! g) + k < length (ac_group_sec l ! g)"
    by simp_all
  from ac_group_task_status(2) [OF t g rg assms(4)] have 1: "st1 ! i = st ! i" .
  from ac_group_task_effect [OF t] obtain d where
    s1: "s1 = s\<lparr>decoded_passes_per_ac_group := d\<rparr>"
    and other: "\<forall>k. k \<noteq> g \<longrightarrow> d ! k = decoded_passes_per_ac_group s ! k" by blast
  from Cons.prems t have f: "fold (ac_group_task env sections l) gs (a1, e1, s1, st1) = (a', e', s', st')"
    by simp
  from Cons.prems(2) have dist: "distinct gs" and notin: "g \<notin> set gs" by simp_all
  have "\<forall>g'\<in>set gs. g' < length (ac_group_sec l) \<and>
           (\<forall>k<num_ac_passes l ! g'.
              unat (decoded_passes_per_ac_group s1 ! g') + k < length (ac_group_sec l ! g'))"
  proof
    fix g' assume g': "g' \<in> set gs"
    with notin have "g' \<noteq> g" by auto
    with other have "decoded_passes_per_ac_group s1 ! g' = decoded_passes_per_ac_group s ! g'"
      by (simp add: s1)
    with Cons.prems(3) g' show "g' < length (ac_group_sec l) \<and>
           (\<forall>k<num_ac_passes l ! g'.
              unat (decoded_passes_per_ac_group s1 ! g') + k < length (ac_group_sec l ! g'))"
      by simp
  qed
  from Cons.IH [OF f dist this] 1 show ?case by simp
qed

lemma ac_groups_stage_tracked:
  assumes c: "ac_groups_stage env sections (s, l, st) = (r, (s', l', st'))"
    and k: "ready sections s0 (s, l, st)" and settled: "dc_settled s"
  shows "tracked sections s0 (s', l', st')" and "dc_settled s'" and "r \<noteq> Some StatusOk"
proof -
  note e = ac_groups_stage_effect [OF c]
  from e(3) obtain d where s': "s' = s\<lparr>decoded_passes_per_ac_group := d\<rparr>" ..
  then have p: "processed_section s' = processed_section s" by simp
  from k have tr: "tracked sections s0 (s, l, st)"
    and rg: "passes_in_range s l \<or> all_processed sections s" by (simp_all add: ready_def)
  obtain a1 e1 s1 st1 where f: "fold (ac_group_task env sections l) [0..<length (ac_group_sec l)]
      (False, False, s, st) = (a1, e1, s1, st1)"
    by (cases "fold (ac_group_task env sections l) [0..<length (ac_group_sec l)]
          (False, False, s, st)")
  from c f have st': "st' = st1 \<or> st' = st"
    by (auto simp: ac_groups_stage_def split: if_splits)
  from fold_ac_group_task_length [OF f] st' have len: "length st' = length st" by auto
  have "tracked sections s0 (s', l, st')"
    using rg
  proof
    assume "all_processed sections s"
    with tr show ?thesis using p len by (rule tracked_all_processed)
  next
    assume pr: "passes_in_range s l"
    have loc: "st' ! i = st ! i" if "i \<notin> slots l" for i
    proof -
      have "st1 ! i = st ! i"
        by (rule fold_ac_group_task_status [OF f _ _ that])
           (use pr in \<open>auto simp: passes_in_range_def\<close>)
      with st' show ?thesis by auto
    qed
    from tr p len loc show ?thesis by (rule tracked_local)
  qed
  then show "tracked sections s0 (s', l', st')" by (simp add: e(1))
  from settled show "dc_settled s'" by (simp add: s' dc_settled_def)
  show "r \<noteq> Some StatusOk" by (rule e(2))
qed


lemma ready_tracked: "ready sections s0 w \<Longrightarrow> tracked sections s0 w"
  by (cases w) (simp add: ready_def)

lemma finished_error: "x \<noteq> StatusOk \<Longrightarrow> tracked sections s0 w \<Longrightarrow> finished sections s0 x w"
  by (cases w) (simp add: finished_def)

lemma ProcessSections_unfold:
  assumes "sections \<noteq> []"
  shows "ProcessSections env sections s =
     (case and_then (and_then (and_then (and_then (and_then (and_then
              (classify_stage sections
                 (s, init_locals s (length sections), replicate (length sections) kSkipped))
              (dc_global_stage env sections)) (dc_groups_stage env sections))
              (finalize_dc_stage env sections)) (ac_global_stage env sections))
              (ac_groups_stage env sections)) (mark_stage sections) of
        (Some status, (s', l, section_status)) \<Rightarrow> (status, section_status, s')
      | (None, (s', l, section_status)) \<Rightarrow> (StatusOk, section_status, s'))"
  using assms by (simp add: ProcessSections_def Let_def)

lemma ProcessSections_finished:
  assumes run: "ProcessSections env sections s0 = (x, st, s')" and nonempty: "sections \<noteq> []"
    and mp: "max_passes s0 \<le> num_passes (passes (frame_header s0))"
    and ne: "single_section s0 \<longrightarrow> processed_section s0 \<noteq> []"
  shows "\<exists>l. finished sections s0 x (s', l, st)"
proof -
  define F where "F = finished sections s0"
  define w0 where "w0 = (s0, init_locals s0 (length sections), replicate (length sections) kSkipped)"
  define r0 where "r0 = classify_stage sections w0"
  define r1 where "r1 = and_then r0 (dc_global_stage env sections)"
  define r2 where "r2 = and_then r1 (dc_groups_stage env sections)"
  define r3 where "r3 = and_then r2 (finalize_dc_stage env sections)"
  define r4 where "r4 = and_then r3 (ac_global_stage env sections)"
  define r5 where "r5 = and_then r4 (ac_groups_stage env sections)"
  define r6 where "r6 = and_then r5 (mark_stage sections)"
  have 0: "case r0 of (None, w) \<Rightarrow> ready sections s0 w | (Some x, w) \<Rightarrow> F x w"
  proof -
    obtain r s l st where c: "classify_stage sections w0 = (r, (s, l, st))"
      by (cases "classify_stage sections w0") auto
    from classify_stage_ready(1,2) [OF c [unfolded w0_def] mp ne] c show ?thesis
      by (cases r) (auto simp: r0_def F_def intro: finished_error ready_tracked)
  qed
  have 1: "case r1 of (None, w) \<Rightarrow> ready sections s0 w | (Some x, w) \<Rightarrow> F x w"
    unfolding r1_def
  proof (rule and_then_rule [OF 0])
    fix w assume k: "ready sections s0 w"
    obtain s l st where w: "w = (s, l, st)" by (cases w)
    obtain r s' l' st' where c: "dc_global_stage env sections (s, l, st) = (r, (s', l', st'))"
      by (cases "dc_global_stage env sections (s, l, st)") auto
    from dc_global_stage_ready [OF c k [unfolded w]] c
    show "case dc_global_stage env sections w of
            (None, w') \<Rightarrow> ready sections s0 w' | (Some x, w') \<Rightarrow> F x w'"
      by (cases r) (auto simp: w F_def intro: finished_error ready_tracked)
  qed
  have 2: "case r2 of (None, w) \<Rightarrow> ready sections s0 w | (Some x, w) \<Rightarrow> F x w"
    unfolding r2_def
  proof (rule and_then_rule [OF 1])
    fix w assume k: "ready sections s0 w"
    obtain s l st where w: "w = (s, l, st)" by (cases w)
    obtain r s' l' st' where c: "dc_groups_stage env sections (s, l, st) = (r, (s', l', st'))"
      by (cases "dc_groups_stage env sections (s, l, st)") auto
    from dc_groups_stage_ready [OF c k [unfolded w]] c
    show "case dc_groups_stage env sections w of
            (None, w') \<Rightarrow> ready sections s0 w' | (Some x, w') \<Rightarrow> F x w'"
      by (cases r) (auto simp: w F_def intro: finished_error ready_tracked)
  qed
  have 3: "case r3 of (None, w) \<Rightarrow> ready sections s0 w \<and> dc_settled (fst w)
           | (Some x, w) \<Rightarrow> F x w"
    unfolding r3_def
  proof (rule and_then_rule [OF 2])
    fix w assume k: "ready sections s0 w"
    obtain s l st where w: "w = (s, l, st)" by (cases w)
    obtain r s' l' st' where c: "finalize_dc_stage env sections (s, l, st) = (r, (s', l', st'))"
      by (cases "finalize_dc_stage env sections (s, l, st)") auto
    from finalize_dc_stage_ready [OF c k [unfolded w]] c
    show "case finalize_dc_stage env sections w of
            (None, w') \<Rightarrow> ready sections s0 w' \<and> dc_settled (fst w') | (Some x, w') \<Rightarrow> F x w'"
      by (cases r) (auto simp: w F_def)
  qed
  have 4: "case r4 of (None, w) \<Rightarrow> ready sections s0 w \<and> dc_settled (fst w)
           | (Some x, w) \<Rightarrow> F x w"
    unfolding r4_def
  proof (rule and_then_rule [OF 3])
    fix w assume "ready sections s0 w \<and> dc_settled (fst w)"
    then have k: "ready sections s0 w" and d: "dc_settled (fst w)" by simp_all
    obtain s l st where w: "w = (s, l, st)" by (cases w)
    obtain r s' l' st' where c: "ac_global_stage env sections (s, l, st) = (r, (s', l', st'))"
      by (cases "ac_global_stage env sections (s, l, st)") auto
    from ac_global_stage_ready [OF c k [unfolded w]] d c
    show "case ac_global_stage env sections w of
            (None, w') \<Rightarrow> ready sections s0 w' \<and> dc_settled (fst w') | (Some x, w') \<Rightarrow> F x w'"
      by (cases r) (auto simp: w F_def intro: finished_error ready_tracked)
  qed
  have 5: "case r5 of (None, w) \<Rightarrow> tracked sections s0 w \<and> dc_settled (fst w)
           | (Some x, w) \<Rightarrow> F x w"
    unfolding r5_def
  proof (rule and_then_rule [OF 4])
    fix w assume "ready sections s0 w \<and> dc_settled (fst w)"
    then have k: "ready sections s0 w" and d: "dc_settled (fst w)" by simp_all
    obtain s l st where w: "w = (s, l, st)" by (cases w)
    obtain r s' l' st' where c: "ac_groups_stage env sections (s, l, st) = (r, (s', l', st'))"
      by (cases "ac_groups_stage env sections (s, l, st)") auto
    from ac_groups_stage_tracked [OF c k [unfolded w]] d c
    show "case ac_groups_stage env sections w of
            (None, w') \<Rightarrow> tracked sections s0 w' \<and> dc_settled (fst w') | (Some x, w') \<Rightarrow> F x w'"
      by (cases r) (auto simp: w F_def intro: finished_error)
  qed
  have 6: "case r6 of (None, w) \<Rightarrow> False | (Some x, w) \<Rightarrow> F x w"
    unfolding r6_def
  proof (rule and_then_rule [OF 5])
    fix w assume "tracked sections s0 w \<and> dc_settled (fst w)"
    then show "case mark_stage sections w of (None, w') \<Rightarrow> False | (Some x, w') \<Rightarrow> F x w'"
      by (cases w) (auto simp: mark_stage_def F_def finished_def)
  qed
  have "ProcessSections env sections s0 =
      (case r6 of (Some status, (s', l, section_status)) \<Rightarrow> (status, section_status, s')
       | (None, (s', l, section_status)) \<Rightarrow> (StatusOk, section_status, s'))"
    unfolding ProcessSections_unfold [OF nonempty] r6_def r5_def r4_def r3_def r2_def r1_def
      r0_def w0_def ..
  with run 6 show ?thesis
    by (auto simp: F_def split: prod.splits option.splits)
qed


lemma MarkSections_only_clears:
  "section_processed (MarkSections sections st s) k \<Longrightarrow> section_processed s k"
proof -
  obtain p n where "MarkSections sections st s = s\<lparr>processed_section := p, num_sections_done := n\<rparr>"
    and "length p = length (processed_section s)" and "\<forall>k. p ! k \<longrightarrow> processed_section s ! k"
    using MarkSections_effect [of sections st s] by blast
  then show "section_processed (MarkSections sections st s) k \<Longrightarrow> section_processed s k"
    by (simp add: section_processed_def)
qed



text \<open>An entry beyond the cap whose section is not marked stays skipped and unmarked.\<close>

lemma ProcessSections_beyond_skipped:
  assumes run: "ProcessSections env sections s0 = (x, st, s')"
    and i: "i < length sections"
    and beyond: "beyond_max_passes s0 (id_sec (sections ! i))"
    and fresh: "\<not> section_processed s0 (id_sec (sections ! i))"
    and mp: "max_passes s0 \<le> num_passes (passes (frame_header s0))"
    and multi: "\<not> single_section s0"
  shows "st ! i = kSkipped" and "\<not> section_processed s' (id_sec (sections ! i))"
proof -
  from i have nonempty: "sections \<noteq> []" by auto
  from ProcessSections_finished [OF run nonempty mp] multi
  obtain l where fin: "finished sections s0 x (s', l, st)" by auto
  have skipped: "st ! i = kSkipped \<and> \<not> section_processed s'' (id_sec (sections ! i))"
    if "tracked sections s0 (s'', l, st)" for s''
  proof -
    from that beyond fresh have "\<not> section_processed s'' (id_sec (sections ! i))"
      by (simp add: tracked_def)
    moreover from that i have "section_processed s'' (id_sec (sections ! i)) \<or> st ! i = kSkipped"
      by (auto simp: tracked_def accounted_def)
    ultimately show ?thesis by simp
  qed
  have "st ! i = kSkipped \<and> \<not> section_processed s' (id_sec (sections ! i))"
  proof (cases "x = StatusOk")
    case True
    with fin obtain s'' where tr: "tracked sections s0 (s'', l, st)"
      and s': "s' = MarkSections sections st s''"
      by (auto simp: finished_def)
    from skipped [OF tr] MarkSections_only_clears [of sections st s'' "id_sec (sections ! i)"]
    show ?thesis by (auto simp: s')
  next
    case False
    with fin have "tracked sections s0 (s', l, st)" by (simp add: finished_def)
    then show ?thesis by (rule skipped)
  qed
  then show "st ! i = kSkipped" and "\<not> section_processed s' (id_sec (sections ! i))"
    by simp_all
qed


lemma fold_ac_group_task_idle:
  "\<forall>g\<in>set gs. num_ac_passes l ! g = 0 \<Longrightarrow>
     fold (ac_group_task env sections l) gs acc = acc"
  by (induction gs arbitrary: acc) (auto simp: ac_group_task_def)

lemma ac_groups_stage_idle:
  "idle_ac l \<Longrightarrow> ac_groups_stage env sections (s, l, st) = (None, (s, l, st))"
  by (simp add: ac_groups_stage_def fold_ac_group_task_idle idle_ac_def)









lemma and_then_Some [simp]: "and_then (Some x, w) f = (Some x, w)"
  by (simp add: and_then_def)

lemma and_then_None [simp]: "and_then (None, w) f = f w"
  by (simp add: and_then_def)











text \<open>With a cap of no pass, no counter of an AC group changes.\<close>

lemma classify_stage_idle_ac:
  assumes c: "classify_stage sections
                (s0, init_locals s0 (length sections), replicate (length sections) kSkipped)
              = (r, (s, l, st))"
    and zero: "max_passes s0 = 0" and multi: "\<not> single_section s0"
  shows "idle_ac l"
proof -
  define l0 where "l0 = init_locals s0 (length sections)"
  define st0 where "st0 = replicate (length sections) kSkipped"
  note c' = c [folded l0_def st0_def]
  have init: "classified sections s0 l0 (s0, l0, st0)"
    unfolding l0_def st0_def by (rule classified_init)
  obtain r1 s1 l1 st1 where loop: "run_loop (classify_section sections) [0..<length sections]
      (s0, l0, st0) = (r1, (s1, l1, st1))"
    by (cases "run_loop (classify_section sections) [0..<length sections] (s0, l0, st0)") auto
  have cl: "classified sections s0 l0 (s1, l1, st1)"
    by (rule run_loop_rule [where I = "classified sections s0 l0", OF loop init])
       (auto intro: classify_section_classified)
  then have same: "s1\<lparr>processed_section := processed_section s0\<rparr> = s0"
    and rows: "map length (ac_group_sec l1) = map length (ac_group_sec l0)"
    and nap: "num_ac_passes l1 = num_ac_passes l0"
    by (simp_all add: classified_def)
  from rows have len: "length (ac_group_sec l1) = num_groups (frame_dim s0)"
    by (drule_tac arg_cong [where f = length]) (simp add: l0_def init_locals_def)
  show ?thesis
  proof (cases r1)
    case (Some x)
    with c' multi loop have "l = l1" by (auto simp: classify_stage_def and_then_def)
    with len nap show ?thesis by (simp add: idle_ac_def l0_def init_locals_def)
  next
    case None
    with c' multi loop have "l = l1\<lparr>num_ac_passes :=
        map (\<lambda>g. count_new_passes (ac_group_sec l1 ! g)
                   (unat (decoded_passes_per_ac_group s1 ! g))
                   (max_passes s1) (length sections) 0)
          [0..<length (ac_group_sec l1)]\<rparr>"
      by (auto simp: classify_stage_def and_then_def)
    moreover have "max_passes s1 = 0" using same_but_processed(2) [OF same] zero by simp
    ultimately show ?thesis
      by (simp add: idle_ac_def count_new_passes.simps [of _ _ 0 _ 0])
  qed
qed

lemma ProcessSections_no_new_passes:
  assumes run: "ProcessSections env sections s0 = (x, st, s')"
    and zero: "max_passes s0 = 0" and multi: "\<not> single_section s0"
  shows "decoded_passes_per_ac_group s' = decoded_passes_per_ac_group s0"
proof (cases "sections = []")
  case True
  with run show ?thesis by (simp add: ProcessSections_def)
next
  case False
  define P where "P = (\<lambda>x::FrameDecoder.
      decoded_passes_per_ac_group x = decoded_passes_per_ac_group s0)"
  define G where "G = (\<lambda>w::Work. P (fst w) \<and> idle_ac (fst (snd w)))"
  define F where "F = (\<lambda>(x::Status) (w::Work). P (fst w))"
  define w0 where "w0 = (s0, init_locals s0 (length sections), replicate (length sections) kSkipped)"
  define r0 where "r0 = classify_stage sections w0"
  define r1 where "r1 = and_then r0 (dc_global_stage env sections)"
  define r2 where "r2 = and_then r1 (dc_groups_stage env sections)"
  define r3 where "r3 = and_then r2 (finalize_dc_stage env sections)"
  define r4 where "r4 = and_then r3 (ac_global_stage env sections)"
  define r5 where "r5 = and_then r4 (ac_groups_stage env sections)"
  define r6 where "r6 = and_then r5 (mark_stage sections)"
  have mark: "P (MarkSections sections' st' y) = P y" for sections' st' y
  proof -
    obtain p n where "MarkSections sections' st' y = y\<lparr>processed_section := p, num_sections_done := n\<rparr>"
      using MarkSections_effect [of sections' st' y] by blast
    then show ?thesis by (simp add: P_def)
  qed
  have stage: "case f w of (None, w') \<Rightarrow> G w' | (Some x, w') \<Rightarrow> F x w'"
    if "G w" and "\<And>s l st r s' l' st'. f (s, l, st) = (r, (s', l', st')) \<Longrightarrow> P s
        \<Longrightarrow> P s' \<and> l' = l" for f w
  proof -
    obtain s l st where w: "w = (s, l, st)" by (cases w)
    obtain r s' l' st' where f: "f (s, l, st) = (r, (s', l', st'))"
      by (cases "f (s, l, st)") auto
    from that(1) w have "P s" "idle_ac l" by (simp_all add: G_def)
    with that(2) [OF f] f show ?thesis
      by (cases r) (simp_all add: w G_def F_def)
  qed
  have 0: "case r0 of (None, w') \<Rightarrow> G w' | (Some x, w') \<Rightarrow> F x w'"
  proof -
    obtain r s l st where c: "classify_stage sections w0 = (r, (s, l, st))"
      by (cases "classify_stage sections w0") auto
    from classify_stage_idle_ac [OF c [unfolded w0_def] zero multi] have "idle_ac l" .
    moreover from classify_stage_processed [OF c [unfolded w0_def]] have "P s"
      by (auto simp: P_def)
    ultimately show ?thesis using c by (cases r) (simp_all add: r0_def G_def F_def)
  qed
  have c1: "P y \<and> l' = l" if "dc_global_stage env sections (x, l, t) = (q, (y, l', t'))" "P x"
    for x l t q y l' t'
    using dc_global_stage_effect(1,2) [OF that(1)] that(2) by (auto simp: P_def)
  have c2: "P y \<and> l' = l" if "dc_groups_stage env sections (x, l, t) = (q, (y, l', t'))" "P x"
    for x l t q y l' t'
    using dc_groups_stage_effect(1,3) [OF that(1)] that(2) by (auto simp: P_def)
  have c3: "P y \<and> l' = l" if "finalize_dc_stage env sections (x, l, t) = (q, (y, l', t'))" "P x"
    for x l t q y l' t'
  proof (cases "q = Some StatusOk")
    case True
    from finalize_dc_stage_effect(1,2,4) [OF that(1)] True that(2) show ?thesis
      by (auto simp: mark) (auto simp: P_def)
  next
    case False
    from finalize_dc_stage_effect(1,3) [OF that(1)] False that(2) show ?thesis
      by (auto simp: P_def)
  qed
  have c4: "P y \<and> l' = l" if "ac_global_stage env sections (x, l, t) = (q, (y, l', t'))" "P x"
    for x l t q y l' t'
    using ac_global_stage_effect(1,2) [OF that(1)] that(2) by (auto simp: P_def)
  have 1: "case r1 of (None, w') \<Rightarrow> G w' | (Some x, w') \<Rightarrow> F x w'"
    unfolding r1_def by (rule and_then_rule [OF 0]) (rule stage [OF _ c1])
  have 2: "case r2 of (None, w') \<Rightarrow> G w' | (Some x, w') \<Rightarrow> F x w'"
    unfolding r2_def by (rule and_then_rule [OF 1]) (rule stage [OF _ c2])
  have 3: "case r3 of (None, w') \<Rightarrow> G w' | (Some x, w') \<Rightarrow> F x w'"
    unfolding r3_def by (rule and_then_rule [OF 2]) (rule stage [OF _ c3])
  have 4: "case r4 of (None, w') \<Rightarrow> G w' | (Some x, w') \<Rightarrow> F x w'"
    unfolding r4_def by (rule and_then_rule [OF 3]) (rule stage [OF _ c4])
  have 5: "case r5 of (None, w') \<Rightarrow> G w' | (Some x, w') \<Rightarrow> F x w'"
    unfolding r5_def
  proof (rule and_then_rule [OF 4])
    fix w assume "G w"
    then show "case ac_groups_stage env sections w of (None, w') \<Rightarrow> G w' | (Some x, w') \<Rightarrow> F x w'"
      by (cases w) (simp add: G_def ac_groups_stage_idle)
  qed
  have 6: "case r6 of (None, w') \<Rightarrow> G w' | (Some x, w') \<Rightarrow> F x w'"
    unfolding r6_def
  proof (rule and_then_rule [OF 5])
    fix w assume "G w"
    then show "case mark_stage sections w of (None, w') \<Rightarrow> G w' | (Some x, w') \<Rightarrow> F x w'"
      by (cases w) (simp add: G_def F_def mark_stage_def mark)
  qed
  have "ProcessSections env sections s0 =
      (case r6 of (Some status, (s', l, section_status)) \<Rightarrow> (status, section_status, s')
       | (None, (s', l, section_status)) \<Rightarrow> (StatusOk, section_status, s'))"
    unfolding ProcessSections_unfold [OF False] r6_def r5_def r4_def r3_def r2_def r1_def
      r0_def w0_def ..
  with run 6 show ?thesis
    by (auto simp: F_def G_def P_def split: prod.splits option.splits)
qed

subsection \<open>ProcessSections on a frame of a single section does not read the cap\<close>

lemma fold_commute:
  assumes "\<And>x a. f x (L a) = L (f x a)"
  shows "fold f xs (L a) = L (fold f xs a)"
  by (induction xs arbitrary: a) (simp_all add: assms)

lemma and_then_cap:
  assumes "r' = apsnd (cap_work mp) r"
    and "\<And>w. f (cap_work mp w) = apsnd (cap_work mp) (f w)"
  shows "and_then r' f = apsnd (cap_work mp) (and_then r f)"
proof -
  obtain x w where "r = (x, w)" by (cases r)
  with assms show ?thesis by (cases x) (simp_all add: and_then_def)
qed

lemma single_section_cap [simp]: "single_section (SetMaxPasses mp s) = single_section s"
  by (simp add: single_section_def SetMaxPasses_def)

lemma init_locals_cap [simp]: "init_locals (SetMaxPasses mp s) n = init_locals s n"
  by (simp add: init_locals_def SetMaxPasses_def)

lemma classify_stage_cap:
  "single_section s \<Longrightarrow>
   classify_stage sections (cap_work mp (s, l, st))
     = apsnd (cap_work mp) (classify_stage sections (s, l, st))"
  by (simp add: classify_stage_def cap_work_def mark_processed_def Let_def SetMaxPasses_def
      single_section_def)

lemma dc_global_stage_cap:
  "dc_global_stage env sections (cap_work mp w)
     = apsnd (cap_work mp) (dc_global_stage env sections w)"
  by (cases w) (simp add: dc_global_stage_def cap_work_def ProcessDCGlobal_def Let_def
      SetMaxPasses_def)

lemma dc_group_task_cap:
  "dc_group_task env sections l i (case acc of (h, s, st) \<Rightarrow> (h, SetMaxPasses mp s, st))
     = (case dc_group_task env sections l i acc of (h, s, st) \<Rightarrow> (h, SetMaxPasses mp s, st))"
  by (cases acc) (simp add: dc_group_task_def ProcessDCGroup_def Let_def SetMaxPasses_def)

lemma dc_groups_stage_cap:
  "dc_groups_stage env sections (cap_work mp w)
     = apsnd (cap_work mp) (dc_groups_stage env sections w)"
proof (cases w)
  case (fields s l st)
  have "fold (dc_group_task env sections l) xs (False, SetMaxPasses mp s, st)
      = (case fold (dc_group_task env sections l) xs (False, s, st) of
           (h, s', st') \<Rightarrow> (h, SetMaxPasses mp s', st'))" for xs
    using fold_commute [of "dc_group_task env sections l"
        "\<lambda>acc. case acc of (h, s, st) \<Rightarrow> (h, SetMaxPasses mp s, st)" xs "(False, s, st)",
        OF dc_group_task_cap]
    by simp
  moreover have "decoded_dc_global (SetMaxPasses mp s) = decoded_dc_global s"
    by (simp add: SetMaxPasses_def)
  ultimately show ?thesis
    using fields by (simp add: dc_groups_stage_def cap_work_def split: prod.splits)
qed

lemma MarkSections_step_cap:
  "MarkSections_step sections st i (SetMaxPasses mp s)
     = SetMaxPasses mp (MarkSections_step sections st i s)"
  by (simp add: MarkSections_step_def SetMaxPasses_def)

lemma MarkSections_cap:
  "MarkSections sections st (SetMaxPasses mp s) = SetMaxPasses mp (MarkSections sections st s)"
proof -
  have "(SetMaxPasses mp s)\<lparr>num_sections_done := n\<rparr> = SetMaxPasses mp (s\<lparr>num_sections_done := n\<rparr>)"
    for n by (simp add: SetMaxPasses_def)
  then show ?thesis
    unfolding MarkSections_def
    using fold_commute [of "MarkSections_step sections st" "SetMaxPasses mp", OF MarkSections_step_cap]
    by simp
qed

lemma finalize_dc_stage_cap:
  "finalize_dc_stage env sections (cap_work mp w)
     = apsnd (cap_work mp) (finalize_dc_stage env sections w)"
proof (cases w)
  case (fields s l st)
  obtain r0 s0 where ao: "AllocateOutput env (FinalizeDC s) = (r0, s0)"
    by (cases "AllocateOutput env (FinalizeDC s)")
  then have a: "AllocateOutput env (FinalizeDC (SetMaxPasses mp s)) = (r0, SetMaxPasses mp s0)"
    by (auto simp: AllocateOutput_def FinalizeDC_def SetMaxPasses_def Let_def split: if_splits)
  have b: "decoded_dc_groups (SetMaxPasses mp s) = decoded_dc_groups s"
    "finalized_dc (SetMaxPasses mp s) = finalized_dc s"
    "pause_at_progressive (SetMaxPasses mp s0) = pause_at_progressive s0"
    "frame_header (SetMaxPasses mp s0) = frame_header s0"
    by (simp_all add: SetMaxPasses_def)
  show ?thesis
    using fields
    by (simp add: finalize_dc_stage_def cap_work_def ao a b MarkSections_cap Let_def)
qed

lemma ac_global_stage_cap:
  "ac_global_stage env sections (cap_work mp w)
     = apsnd (cap_work mp) (ac_global_stage env sections w)"
  by (cases w) (simp add: ac_global_stage_def cap_work_def ProcessACGlobal_def Let_def
      SetMaxPasses_def)

lemma ac_group_task_cap:
  "ac_group_task env sections l g (case acc of (a, h, s, st) \<Rightarrow> (a, h, SetMaxPasses mp s, st))
     = (case ac_group_task env sections l g acc of (a, h, s, st) \<Rightarrow> (a, h, SetMaxPasses mp s, st))"
  by (cases acc) (simp add: ac_group_task_def ProcessACGroup_def Let_def SetMaxPasses_def)

lemma ac_groups_stage_cap:
  "ac_groups_stage env sections (cap_work mp w)
     = apsnd (cap_work mp) (ac_groups_stage env sections w)"
proof (cases w)
  case (fields s l st)
  have "fold (ac_group_task env sections l) xs (False, False, SetMaxPasses mp s, st)
      = (case fold (ac_group_task env sections l) xs (False, False, s, st) of
           (a, h, s', st') \<Rightarrow> (a, h, SetMaxPasses mp s', st'))" for xs
    using fold_commute [of "ac_group_task env sections l"
        "\<lambda>acc. case acc of (a, h, s, st) \<Rightarrow> (a, h, SetMaxPasses mp s, st)" xs
        "(False, False, s, st)", OF ac_group_task_cap]
    by simp
  moreover have "decoded_ac_global (SetMaxPasses mp s) = decoded_ac_global s"
    by (simp add: SetMaxPasses_def)
  ultimately show ?thesis
    using fields by (simp add: ac_groups_stage_def cap_work_def split: prod.splits)
qed

lemma mark_stage_cap:
  "mark_stage sections (cap_work mp w) = apsnd (cap_work mp) (mark_stage sections w)"
  by (cases w) (simp add: mark_stage_def cap_work_def MarkSections_cap)

lemma ProcessSections_single_cap:
  assumes single: "single_section s"
  shows "ProcessSections env sections (SetMaxPasses mp s)
     = (case ProcessSections env sections s of (r, st, s') \<Rightarrow> (r, st, SetMaxPasses mp s'))"
proof (cases "length sections = 0")
  case True
  then show ?thesis by (simp add: ProcessSections_def)
next
  case False
  define w where "w = (s, init_locals s (length sections), replicate (length sections) kSkipped)"
  define chain where "chain r =
     and_then (and_then (and_then (and_then (and_then (and_then r
       (dc_global_stage env sections)) (dc_groups_stage env sections))
       (finalize_dc_stage env sections)) (ac_global_stage env sections))
       (ac_groups_stage env sections)) (mark_stage sections)" for r
  have 0: "classify_stage sections (cap_work mp w) = apsnd (cap_work mp) (classify_stage sections w)"
    unfolding w_def by (rule classify_stage_cap [OF single])
  have c: "chain (classify_stage sections (cap_work mp w))
      = apsnd (cap_work mp) (chain (classify_stage sections w))"
    unfolding chain_def
    by (intro and_then_cap 0 dc_global_stage_cap dc_groups_stage_cap finalize_dc_stage_cap
        ac_global_stage_cap ac_groups_stage_cap mark_stage_cap)
  have l: "ProcessSections env sections (SetMaxPasses mp s)
      = (case chain (classify_stage sections (cap_work mp w)) of
              (Some status, (s', l, section_status)) \<Rightarrow> (status, section_status, s')
            | (None, (s', l, section_status)) \<Rightarrow> (StatusOk, section_status, s'))"
    using False by (simp add: ProcessSections_def Let_def chain_def w_def cap_work_def)
  have r: "ProcessSections env sections s
      = (case chain (classify_stage sections w) of
              (Some status, (s', l, section_status)) \<Rightarrow> (status, section_status, s')
            | (None, (s', l, section_status)) \<Rightarrow> (StatusOk, section_status, s'))"
    using False by (simp add: ProcessSections_def Let_def chain_def w_def)
  show ?thesis
    unfolding l r c
    by (cases "chain (classify_stage sections w)")
       (auto simp: cap_work_def split: option.splits prod.splits)
qed

subsection \<open>ProcessSections: the claims on batches\<close>












text \<open>
  C7, as the code has it. The downsampling that counts is \<open>max_downsampling\<close> of the
  parameters shifted right by three bits per DC level (and at least 1).
  \<^item> When it is 8 or more and the frame is not a reference-only frame, the cap on the
    passes is 0.
  \<^item> For a reference-only frame the cap is \<open>num_passes\<close>.
  \<^item> With the cap 0 set by \<^verbatim>\<open>SetMaxPasses\<close> on a frame of more than one section, a call
    of \<^verbatim>\<open>ProcessSections\<close> changes no pass counter of an AC group, and the entry of
    every AC-group section that is not marked as processed stays \<^verbatim>\<open>kSkipped\<close>.
  \<^item> On a frame of a single section (one group, one pass) \<^verbatim>\<open>ProcessSections\<close> does not
    read the cap: with any cap it returns the same status and the same entries, and
    leaves the same decoder, as with the cap it had. The one section holds the AC group
    too and is decoded whole.
\<close>

theorem max_downsampling_no_passes:
  "(8 \<le> max (drop_bit (dc_level h * 3) (dparams_max_downsampling dparams)) 1 \<and>
    frame_type h \<noteq> kReferenceOnly \<longrightarrow> DecodeFrame_max_passes dparams h = 0) \<and>
   (frame_type h = kReferenceOnly \<longrightarrow> DecodeFrame_max_passes dparams h = num_passes (passes h)) \<and>
   (8 \<le> max (drop_bit (dc_level (frame_header s) * 3) (dparams_max_downsampling dparams)) 1 \<and>
    frame_type (frame_header s) \<noteq> kReferenceOnly \<and> \<not> single_section s \<longrightarrow>
      max_passes (SetMaxPasses (DecodeFrame_max_passes dparams (frame_header s)) s) = 0 \<and>
      decoded_passes_per_ac_group
        (snd (snd (ProcessSections env sections
                     (SetMaxPasses (DecodeFrame_max_passes dparams (frame_header s)) s))))
        = decoded_passes_per_ac_group s \<and>
      (\<forall>i<length sections.
          num_dc_groups (frame_dim s) + 1 < id_sec (sections ! i) \<and>
          \<not> section_processed s (id_sec (sections ! i)) \<longrightarrow>
          fst (snd (ProcessSections env sections
                      (SetMaxPasses (DecodeFrame_max_passes dparams (frame_header s)) s))) ! i
            = kSkipped)) \<and>
   (single_section s \<longrightarrow>
      ProcessSections env sections (SetMaxPasses mp s)
        = (case ProcessSections env sections s of
             (r, st, s') \<Rightarrow> (r, st, SetMaxPasses mp s')))"
proof (intro conjI impI allI)
  assume "8 \<le> max (drop_bit (dc_level h * 3) (dparams_max_downsampling dparams)) 1 \<and>
    frame_type h \<noteq> kReferenceOnly"
  then show "DecodeFrame_max_passes dparams h = 0"
    by (simp add: DecodeFrame_max_passes_def Let_def)
next
  assume "frame_type h = kReferenceOnly"
  then show "DecodeFrame_max_passes dparams h = num_passes (passes h)"
    by (simp add: DecodeFrame_max_passes_def Let_def)
next
  assume "single_section s"
  then show "ProcessSections env sections (SetMaxPasses mp s)
        = (case ProcessSections env sections s of
             (r, st, s') \<Rightarrow> (r, st, SetMaxPasses mp s'))"
    by (rule ProcessSections_single_cap)
next
  assume a: "8 \<le> max (drop_bit (dc_level (frame_header s) * 3) (dparams_max_downsampling dparams)) 1 \<and>
    frame_type (frame_header s) \<noteq> kReferenceOnly \<and> \<not> single_section s"
  define s1 where "s1 = SetMaxPasses (DecodeFrame_max_passes dparams (frame_header s)) s"
  from a have zero: "max_passes s1 = 0"
    by (simp add: s1_def SetMaxPasses_def DecodeFrame_max_passes_def Let_def)
  from a have multi: "\<not> single_section s1"
    by (simp add: s1_def SetMaxPasses_def single_section_def)
  obtain r st s' where run: "ProcessSections env sections s1 = (r, st, s')"
    by (cases "ProcessSections env sections s1")
  show "max_passes (SetMaxPasses (DecodeFrame_max_passes dparams (frame_header s)) s) = 0"
    using zero by (simp add: s1_def)
  from ProcessSections_no_new_passes [OF run zero multi] run
  show "decoded_passes_per_ac_group
        (snd (snd (ProcessSections env sections
                     (SetMaxPasses (DecodeFrame_max_passes dparams (frame_header s)) s))))
        = decoded_passes_per_ac_group s"
    by (simp add: s1_def [symmetric]) (simp add: s1_def SetMaxPasses_def)
  fix i
  assume i: "i < length sections"
    and b: "num_dc_groups (frame_dim s) + 1 < id_sec (sections ! i) \<and>
          \<not> section_processed s (id_sec (sections ! i))"
  from b zero have beyond: "beyond_max_passes s1 (id_sec (sections ! i))"
    by (simp add: beyond_max_passes_def s1_def SetMaxPasses_def)
  from b have fresh: "\<not> section_processed s1 (id_sec (sections ! i))"
    by (simp add: section_processed_def s1_def SetMaxPasses_def)
  from zero have mp: "max_passes s1 \<le> num_passes (passes (frame_header s1))" by simp
  from ProcessSections_beyond_skipped(1) [OF run i beyond fresh mp multi] run
  show "fst (snd (ProcessSections env sections
                      (SetMaxPasses (DecodeFrame_max_passes dparams (frame_header s)) s))) ! i
            = kSkipped"
    by (simp add: s1_def [symmetric])
qed

lemma ProcessSections_single_frame:
  "ProcessSections ok_env (one_section 0) single_frame
     = (StatusOk, [kDone],
        single_frame\<lparr>decoded_dc_global := True, decoded_ac_global := True, finalized_dc := True,
                     num_sections_done := 1, decoded_dc_groups := [True],
                     decoded_passes_per_ac_group := [1], processed_section := [True],
                     allocated := True\<rparr>)"
  by code_simp

lemma ProcessSections_single_frame_capped:
  "ProcessSections ok_env (one_section 0) (SetMaxPasses 0 single_frame)
     = (StatusOk, [kDone],
        single_frame\<lparr>decoded_dc_global := True, decoded_ac_global := True, finalized_dc := True,
                     num_sections_done := 1, decoded_dc_groups := [True],
                     decoded_passes_per_ac_group := [1], processed_section := [True],
                     max_passes := 0, allocated := True\<rparr>)"
  by code_simp

text \<open>
  A downsampling of 8 on the example frame: the cap is 0, and the batch of all five
  sections decodes the DC and AC-global and skips the two AC groups. On the frame of a
  single section the one section is decoded with the cap 0 as without it.
\<close>

theorem max_downsampling_no_passes_witness:
  "8 \<le> max (drop_bit (dc_level example_header * 3) (dparams_max_downsampling downsampled_params)) 1 \<and>
   frame_type example_header \<noteq> kReferenceOnly \<and> \<not> single_section fresh_frame \<and>
   DecodeFrame_max_passes downsampled_params example_header = 0 \<and>
   frame_type reference_only_header = kReferenceOnly \<and>
   DecodeFrame_max_passes downsampled_params reference_only_header = 1 \<and>
   decoded_passes_per_ac_group
     (snd (snd (ProcessSections ok_env all_sections (SetMaxPasses 0 fresh_frame)))) = [0, 0] \<and>
   fst (snd (ProcessSections ok_env all_sections (SetMaxPasses 0 fresh_frame))) ! 3 = kSkipped \<and>
   fst (snd (ProcessSections ok_env all_sections (SetMaxPasses 0 fresh_frame))) ! 4 = kSkipped \<and>
   single_section single_frame \<and>
   fst (snd (ProcessSections ok_env (one_section 0) (SetMaxPasses 0 single_frame))) = [kDone] \<and>
   decoded_passes_per_ac_group
     (snd (snd (ProcessSections ok_env (one_section 0) (SetMaxPasses 0 single_frame)))) = [1]"
proof -
  have h: "8 \<le> max (drop_bit (dc_level example_header * 3)
                    (dparams_max_downsampling downsampled_params)) 1"
    "frame_type example_header \<noteq> kReferenceOnly" "\<not> single_section fresh_frame"
    "frame_type reference_only_header = kReferenceOnly"
    "frame_header fresh_frame = example_header"
    by (simp_all add: example_defs downsampled_params_def reference_only_header_def
        single_section_def drop_bit_eq_div)
  have single: "single_section single_frame"
    by (simp add: single_frame_def single_section_def example_defs)
  note t = max_downsampling_no_passes
      [of example_header downsampled_params fresh_frame ok_env all_sections]
  from t h have z: "DecodeFrame_max_passes downsampled_params example_header = 0" by simp
  from max_downsampling_no_passes [of reference_only_header downsampled_params] h
  have r: "DecodeFrame_max_passes downsampled_params reference_only_header = 1"
    by (simp add: reference_only_header_def example_header_def)
  from t h z have d: "decoded_passes_per_ac_group
     (snd (snd (ProcessSections ok_env all_sections (SetMaxPasses 0 fresh_frame)))) = [0, 0]"
    by (simp add: fresh_frame_def)
  from t h z have "\<forall>i<length all_sections.
          num_dc_groups (frame_dim fresh_frame) + 1 < id_sec (all_sections ! i) \<and>
          \<not> section_processed fresh_frame (id_sec (all_sections ! i)) \<longrightarrow>
          fst (snd (ProcessSections ok_env all_sections (SetMaxPasses 0 fresh_frame))) ! i = kSkipped"
    by simp
  then have k: "fst (snd (ProcessSections ok_env all_sections (SetMaxPasses 0 fresh_frame))) ! 3 = kSkipped"
    "fst (snd (ProcessSections ok_env all_sections (SetMaxPasses 0 fresh_frame))) ! 4 = kSkipped"
    by (simp_all add: all_sections_def fresh_frame_def section_processed_def)
  from max_downsampling_no_passes [of _ _ single_frame ok_env "one_section 0" 0] single
  have "ProcessSections ok_env (one_section 0) (SetMaxPasses 0 single_frame)
        = (case ProcessSections ok_env (one_section 0) single_frame of
             (r, st, s') \<Rightarrow> (r, st, SetMaxPasses 0 s'))"
    by simp
  then have c: "fst (snd (ProcessSections ok_env (one_section 0) (SetMaxPasses 0 single_frame)))
        = [kDone]"
    "decoded_passes_per_ac_group
       (snd (snd (ProcessSections ok_env (one_section 0) (SetMaxPasses 0 single_frame)))) = [1]"
    by (simp_all add: ProcessSections_single_frame SetMaxPasses_def)
  from h z r d k single c show ?thesis by simp
qed

text \<open>
  C7 as the claim words it fails in three ways, each with a downsampling of 8 in the
  parameters. For a reference-only frame the cap is the number of passes of the frame,
  here 1. For a DC frame of level 1 the downsampling that counts is 8 shifted right by
  three bits, which is 1, and the cap is 1 again. And on the frame of a single section
  the cap is 0, yet the one section is decoded with its AC group: the entry is \<^verbatim>\<open>kDone\<close>
  and the pass counter of the group goes from 0 to 1.
\<close>

theorem max_downsampling_counterexample:
  "8 \<le> dparams_max_downsampling downsampled_params \<and>
   8 \<le> max (drop_bit (dc_level reference_only_header * 3)
              (dparams_max_downsampling downsampled_params)) 1 \<and>
   DecodeFrame_max_passes downsampled_params reference_only_header = 1 \<and>
   frame_type dc_frame_header \<noteq> kReferenceOnly \<and>
   DecodeFrame_max_passes downsampled_params dc_frame_header = 1 \<and>
   frame_type (frame_header single_frame) \<noteq> kReferenceOnly \<and>
   DecodeFrame_max_passes downsampled_params (frame_header single_frame) = 0 \<and>
   decoded_passes_per_ac_group single_frame = [0] \<and>
   fst (snd (ProcessSections ok_env (one_section 0) (SetMaxPasses 0 single_frame))) = [kDone] \<and>
   decoded_passes_per_ac_group
     (snd (snd (ProcessSections ok_env (one_section 0) (SetMaxPasses 0 single_frame)))) = [1]"
  by (simp add: ProcessSections_single_frame_capped)
     (simp add: downsampled_params_def reference_only_header_def dc_frame_header_def
        example_header_def single_frame_def fresh_frame_def DecodeFrame_max_passes_def
        drop_bit_eq_div)

end
